theory Spec2Isabelle
  imports Main "HOL-Library.Multiset" "HOL-Library.Char_ord" "HOL-Library.List_Lexorder"
    "HOL-Library.Product_Lexorder"
begin

section \<open>Run-time failures\<close>

text \<open>
  A Go run-time panic ends the whole process. Every place of \<^verbatim>\<open>main.go\<close> that can
  panic is a branch of the model returning \<open>Inl\<close> of one of these values:
  an index out of range (\<^verbatim>\<open>names[1]\<close>, \<^verbatim>\<open>st.Field(i)\<close>), a failed type assertion
  (of an element to a key-value expression, of a key to an identifier, lines 320-321)
  and the explicit \<^verbatim>\<open>panic("unreachable")\<close> of the selection scanner.
\<close>

datatype error = IndexOutOfRange | TypeAssertion | Unreachable

section \<open>The query descriptor (main.go, lines 103-122)\<close>

text \<open>
  \<^verbatim>\<open>strings.Split(s, sep)\<close> for a separator of one byte, which is how \<^verbatim>\<open>main\<close> calls it
  (\<^verbatim>\<open>"/"\<close> and \<^verbatim>\<open>"."\<close>): the maximal pieces of \<open>s\<close> between occurrences of \<open>sep\<close>.
  The result is never empty; a string without the separator is returned whole.
  Go strings are byte sequences, as \<open>string\<close> is here.
\<close>

fun Split :: "string \<Rightarrow> char \<Rightarrow> string list" where
  "Split [] sep = [[]]"
| "Split (c # s) sep =
     (if c = sep then [] # Split s sep
      else (case Split s sep of
              [] \<Rightarrow> [[c]]
            | seg # segs \<Rightarrow> (c # seg) # segs))"

text \<open>\<^verbatim>\<open>strings.Join(elems, sep)\<close>, again for a separator of one byte.\<close>

fun Join :: "string list \<Rightarrow> char \<Rightarrow> string" where
  "Join [] sep = []"
| "Join [a] sep = a"
| "Join (a # b # elems) sep = a @ sep # Join (b # elems) sep"

record query =
  pkgPath :: string
  objName :: string
  selName :: string

text \<open>
  Lines 105-122. \<^verbatim>\<open>paths[len(paths)-1]\<close>, \<^verbatim>\<open>names[0]\<close> and \<^verbatim>\<open>names[1]\<close> are
  unguarded index expressions, so each one panics when the index is out of range;
  only \<^verbatim>\<open>names[2]\<close> stands under \<^verbatim>\<open>if len(names) > 2\<close>.
  \<^verbatim>\<open>append(paths[0:len(paths)-1], names[0])\<close> is the list of all segments but the
  last, followed by the first dot-segment.
\<close>

definition parseTarget :: "string \<Rightarrow> error + query" where
  "parseTarget target =
     (let paths = Split target CHR ''/'' in
      if length paths = 0 then Inl IndexOutOfRange
      else
        let names = Split (paths ! (length paths - 1)) CHR ''.'' in
        if length names < 1 then Inl IndexOutOfRange
        else if length names < 2 then Inl IndexOutOfRange
        else Inr \<lparr> pkgPath = Join (take (length paths - 1) paths @ [names ! 0]) CHR ''/'',
                   objName = names ! 1,
                   selName = (if length names > 2 then names ! 2 else []) \<rparr>)"

section \<open>Resolved types (go/types, as far as main.go looks at them)\<close>

text \<open>
  \<^verbatim>\<open>types.Package\<close>: \<^verbatim>\<open>Path()\<close> and \<^verbatim>\<open>Name()\<close>. An object of the universe scope
  (\<^verbatim>\<open>error\<close>, \<^verbatim>\<open>int\<close>) has no package: \<^verbatim>\<open>Pkg()\<close> is nil, here \<open>None\<close>.
\<close>

record package =
  Path :: string
  PkgName :: string

text \<open>
  \<^verbatim>\<open>types.Type\<close> as a tagged union. \<open>Named pkg name u\<close> is a \<^verbatim>\<open>*types.Named\<close> whose
  \<^verbatim>\<open>Obj().Pkg()\<close> is \<open>pkg\<close>, whose \<^verbatim>\<open>Obj().Name()\<close> is \<open>name\<close> and whose
  \<^verbatim>\<open>Underlying()\<close> is \<open>u\<close>. A struct lists its fields in declaration order, each with
  its name and type (\<^verbatim>\<open>st.Field(i).Name()\<close>).
\<close>

datatype ty =
    Basic string
  | Pointer ty
  | Slice ty
  | Struct "(string \<times> ty) list"
  | Signature "ty list" "ty list"
  | Interface "string list"
  | Named "package option" string ty

text \<open>The loop of lines 163-169: strip pointer indirection until a non-pointer is reached.\<close>

fun stripPointers :: "ty \<Rightarrow> ty" where
  "stripPointers (Pointer elem) = stripPointers elem"
| "stripPointers typ = typ"

text \<open>The closure \<^verbatim>\<open>fieldMatches\<close> (lines 158-182); the query is what it captures.\<close>

definition fieldMatches :: "query \<Rightarrow> ty \<Rightarrow> string \<Rightarrow> bool" where
  "fieldMatches q typ sel =
     (if sel \<noteq> selName q then False
      else (case stripPointers typ of
              Named pkg name u \<Rightarrow>
                (case pkg of
                   None \<Rightarrow> False
                 | Some p \<Rightarrow> Path p = pkgPath q \<and> name = objName q)
            | _ \<Rightarrow> False))"

section \<open>Syntax nodes and bindings (go/ast and go/types, as far as main.go looks at them)\<close>

text \<open>
  \<^verbatim>\<open>ast.Ident\<close>: its position \<^verbatim>\<open>NamePos\<close> (a \<^verbatim>\<open>token.Pos\<close>, an integer) and its
  \<^verbatim>\<open>Name\<close>.
\<close>

record ident =
  NamePos :: int
  Name :: string

text \<open>
  \<^verbatim>\<open>ast.Node\<close>, the expressions that main.go tells apart: an identifier, a selector
  expression \<^verbatim>\<open>X.Sel\<close>, a \<^verbatim>\<open>Key: Value\<close> element, a composite literal with its
  elements \<^verbatim>\<open>Elts\<close>, and any other expression. A composite literal and the other
  expressions carry their own \<^verbatim>\<open>Pos()\<close> and \<^verbatim>\<open>End()\<close>.
\<close>

datatype expr =
    Ident ident
  | SelectorExpr expr ident
  | KeyValueExpr expr expr
  | CompositeLit int int "expr list"
  | OtherExpr int int

text \<open>\<^verbatim>\<open>Pos()\<close> and \<^verbatim>\<open>End()\<close> of a node, as go/ast computes them.\<close>

fun Pos_n :: "expr \<Rightarrow> int" where
  "Pos_n (Ident i) = NamePos i"
| "Pos_n (SelectorExpr x sel) = Pos_n x"
| "Pos_n (KeyValueExpr k v) = Pos_n k"
| "Pos_n (CompositeLit p e elts) = p"
| "Pos_n (OtherExpr p e) = p"

fun End_n :: "expr \<Rightarrow> int" where
  "End_n (Ident i) = NamePos i + int (length (Name i))"
| "End_n (SelectorExpr x sel) = NamePos sel + int (length (Name sel))"
| "End_n (KeyValueExpr k v) = End_n v"
| "End_n (CompositeLit p e elts) = e"
| "End_n (OtherExpr p e) = e"

text \<open>
  \<^verbatim>\<open>types.Object\<close>: the concrete kind that the type switches of main.go ask for
  (\<^verbatim>\<open>*types.Var\<close>, \<^verbatim>\<open>*types.Func\<close>, \<^verbatim>\<open>*types.TypeName\<close>, or another one), with
  \<^verbatim>\<open>Pkg()\<close>, \<^verbatim>\<open>Name()\<close> and \<^verbatim>\<open>Type()\<close>.
\<close>

datatype object_kind = Var | Func | TypeName | Const | PkgNameObj | Builtin | Nil | Label

datatype object =
  Object (Kind_of: object_kind) (Pkg_of: "package option") (Name_of: string) (Type_of: ty)

text \<open>\<^verbatim>\<open>types.Selection\<close>: \<^verbatim>\<open>Obj()\<close> and \<^verbatim>\<open>Recv()\<close>.\<close>

record selection =
  Obj :: object
  Recv :: ty

text \<open>\<^verbatim>\<open>Underlying()\<close>: of a named type its underlying type, of any other type itself.\<close>

fun Underlying :: "ty \<Rightarrow> ty" where
  "Underlying (Named pkg name u) = u"
| "Underlying t = t"

text \<open>
  \<^verbatim>\<open>loader.PackageInfo\<close>. The four binding planes are Go maps; a map is iterated in
  an unspecified order, so each plane is the list of its entries in the order in which
  one run happens to visit them. \<^verbatim>\<open>Selections\<close> is keyed by selector expressions
  (\<open>X\<close> and \<open>Sel\<close>), \<^verbatim>\<open>Uses\<close> and \<^verbatim>\<open>Defs\<close> by identifiers (a \<^verbatim>\<open>Defs\<close> entry may hold
  a nil object), \<^verbatim>\<open>Types\<close> by expressions (of a \<^verbatim>\<open>TypeAndValue\<close> only \<^verbatim>\<open>Type\<close> is
  read). Type-checking errors are kept as their messages.
\<close>

record packageInfo =
  Pkg :: package
  Errors :: "string list"
  Selections :: "((expr \<times> ident) \<times> selection) list"
  Uses :: "(ident \<times> object) list"
  Defs :: "(ident \<times> object option) list"
  Types :: "(expr \<times> ty) list"

section \<open>The plane scanners (main.go, lines 223-341)\<close>

text \<open>
  A scanner sends each matched node on the channel \<^verbatim>\<open>c\<close>. \<open>send n r\<close> is the
  outcome of sending \<open>n\<close> and then going on with the rest of the loop, whose outcome
  is \<open>r\<close>: the nodes sent, or the panic that ended the process.
\<close>

definition send :: "expr \<Rightarrow> error + expr list \<Rightarrow> error + expr list" where
  "send n r = (case r of Inl e \<Rightarrow> Inl e | Inr ns \<Rightarrow> Inr (n # ns))"

text \<open>Lines 227-241: the selection scanner.\<close>

fun scanSelections :: "query \<Rightarrow> ((expr \<times> ident) \<times> selection) list \<Rightarrow> error + expr list" where
  "scanSelections q [] = Inr []"
| "scanSelections q (((x, sel), s) # rest) =
     (if Kind_of (Obj s) = Var then
        (if fieldMatches q (Recv s) (Name_of (Obj s))
         then send (Ident sel) (scanSelections q rest)
         else scanSelections q rest)
      else if Kind_of (Obj s) = Func then
        (if fieldMatches q (Recv s) (Name_of (Obj s))
         then send (Ident sel) (scanSelections q rest)
         else scanSelections q rest)
      else Inl Unreachable)"

text \<open>
  Lines 257-273: the use scanner. A type name is skipped; a function or method of
  the query's package and object name is sent without asking \<open>fieldMatches\<close>;
  anything else is sent when \<open>fieldMatches\<close> accepts its type with the empty selector.
\<close>

fun scanUses :: "query \<Rightarrow> (ident \<times> object) list \<Rightarrow> expr list" where
  "scanUses q [] = []"
| "scanUses q ((ident, obj) # rest) =
     (if Kind_of obj = TypeName then scanUses q rest
      else if Kind_of obj = Func \<and>
              (case Pkg_of obj of
                 None \<Rightarrow> False
               | Some p \<Rightarrow> Path p = pkgPath q \<and> Name_of obj = objName q)
           then Ident ident # scanUses q rest
      else if fieldMatches q (Type_of obj) [] then Ident ident # scanUses q rest
      else scanUses q rest)"

text \<open>Lines 280-288: the definition scanner.\<close>

fun scanDefs :: "query \<Rightarrow> (ident \<times> object option) list \<Rightarrow> expr list" where
  "scanDefs q [] = []"
| "scanDefs q ((ident, None) # rest) = scanDefs q rest"
| "scanDefs q ((ident, Some obj) # rest) =
     (if fieldMatches q (Type_of obj) [] then Ident ident # scanDefs q rest
      else scanDefs q rest)"

text \<open>
  Lines 319-326: the loop over the elements of a keyed literal. Each element is
  asserted to be a key-value expression and its key to be an identifier; the first key
  named \<open>selName\<close> is the match of the literal.
\<close>

fun scanKeyed :: "query \<Rightarrow> expr list \<Rightarrow> error + expr option" where
  "scanKeyed q [] = Inr None"
| "scanKeyed q (KeyValueExpr (Ident k) v # elts) =
     (if Name k = selName q then Inr (Some (Ident k)) else scanKeyed q elts)"
| "scanKeyed q (elt # elts) = Inl TypeAssertion"

text \<open>
  Lines 331-337: the loop \<^verbatim>\<open>for i, elt := range comp.Elts\<close> over the elements of
  a positional literal, from index \<open>i\<close> on. \<^verbatim>\<open>st.Field(i)\<close> indexes the slice of
  fields and panics when \<open>i\<close> is not below their number. Nothing compares the number
  of elements with the number of fields.
\<close>

fun scanPositional :: "query \<Rightarrow> (string \<times> ty) list \<Rightarrow> nat \<Rightarrow> expr list \<Rightarrow> error + expr option" where
  "scanPositional q flds i [] = Inr None"
| "scanPositional q flds i (elt # elts) =
     (if \<not> i < length flds then Inl IndexOutOfRange
      else if fst (flds ! i) = selName q then Inr (Some elt)
      else scanPositional q flds (Suc i) elts)"

text \<open>Lines 303-338: one entry of the \<^verbatim>\<open>Types\<close> plane; \<open>None\<close> is \<^verbatim>\<open>continue\<close>.\<close>

fun scanTypeExpr :: "query \<Rightarrow> expr \<times> ty \<Rightarrow> error + expr option" where
  "scanTypeExpr q (CompositeLit p e elts, tv) =
     (if length elts = 0 then Inr None
      else if \<not> fieldMatches q tv (selName q) then Inr None
      else (case Underlying tv of
              Struct flds \<Rightarrow>
                (case elts ! 0 of
                   KeyValueExpr k v \<Rightarrow> scanKeyed q elts
                 | _ \<Rightarrow> scanPositional q flds 0 elts)
            | _ \<Rightarrow> Inr None))"
| "scanTypeExpr q (expr, tv) = Inr None"

text \<open>Lines 302-339: the composite-literal field scanner.\<close>

fun scanTypes :: "query \<Rightarrow> (expr \<times> ty) list \<Rightarrow> error + expr list" where
  "scanTypes q [] = Inr []"
| "scanTypes q (entry # rest) =
     (case scanTypeExpr q entry of
        Inl e \<Rightarrow> Inl e
      | Inr None \<Rightarrow> scanTypes q rest
      | Inr (Some n) \<Rightarrow> send n (scanTypes q rest))"

text \<open>
  What several tasks send, taken together: a panic in any of them ends the process.
\<close>

definition both :: "error + expr list \<Rightarrow> error + expr list \<Rightarrow> error + expr list" where
  "both r1 r2 =
     (case r1 of
        Inl e \<Rightarrow> Inl e
      | Inr ns1 \<Rightarrow> (case r2 of Inl e \<Rightarrow> Inl e | Inr ns2 \<Rightarrow> Inr (ns1 @ ns2)))"

text \<open>
  Lines 223-341: the scanners started for one package. The fourth is started only
  when the query has a selector name.
\<close>

definition scanPackage :: "query \<Rightarrow> packageInfo \<Rightarrow> error + expr list" where
  "scanPackage q pi =
     both (scanSelections q (Selections pi))
       (both (Inr (scanUses q (Uses pi)))
          (both (Inr (scanDefs q (Defs pi)))
             (if selName q \<noteq> [] then scanTypes q (Types pi) else Inr [])))"

text \<open>\<^verbatim>\<open>%d\<close> of a non-negative number.\<close>

fun showNat :: "nat \<Rightarrow> string" where
  "showNat n =
     (if n < 10 then [''0123456789'' ! n]
      else showNat (n div 10) @ [''0123456789'' ! (n mod 10)])"

text \<open>Lines 204-208: the diagnostic logged for a package with errors.\<close>

definition diagnostic :: "packageInfo \<Rightarrow> string" where
  "diagnostic pi =
     (if length (Errors pi) = 1
      then PkgName (Pkg pi) @ '': '' @ Errors pi ! 0
      else PkgName (Pkg pi) @ '': '' @ Errors pi ! 0 @ '' and '' @
           showNat (length (Errors pi) - 1) @ '' error(s)'')"

text \<open>
  Lines 201-342: the loop over the initial packages. \<open>quiet\<close> is the flag \<^verbatim>\<open>-q\<close>.
  The result is the lines logged and what the scanners of all packages send: the
  nodes (here in the order of the packages and planes; the order in which they arrive
  at the collector is any interleaving), or a panic.
\<close>

fun scanPackages :: "query \<Rightarrow> bool \<Rightarrow> packageInfo list \<Rightarrow> string list \<times> (error + expr list)" where
  "scanPackages q quiet [] = ([], Inr [])"
| "scanPackages q quiet (pi # rest) =
     (let (logged, sent) = scanPackages q quiet rest in
      if length (Errors pi) \<noteq> 0
      then ((if quiet = False then [diagnostic pi] else []) @ logged, sent)
      else (logged, both (scanPackage q pi) sent))"

section \<open>Sorting and grouping (main.go, lines 46-68 and 344-380)\<close>

text \<open>\<^verbatim>\<open>token.Position\<close>, the result of \<^verbatim>\<open>fset.Position(pos)\<close>.\<close>

record position =
  Filename :: string
  Offset :: int
  Line :: int
  Column :: int

text \<open>
  \<^verbatim>\<open>result.Less\<close> (lines 55-64), on the nodes at the two indices. The file set
  \<open>fset\<close> is the position resolver of the front end: it is a parameter. Strings are
  compared byte by byte, as Go does.
\<close>

definition Less :: "(int \<Rightarrow> position) \<Rightarrow> expr \<Rightarrow> expr \<Rightarrow> bool" where
  "Less fset a b =
     (let p = fset (Pos_n a); q = fset (Pos_n b) in
      if Filename p = Filename q then Offset p < Offset q
      else Filename p < Filename q)"

text \<open>
  \<^verbatim>\<open>sort.Sort\<close> belongs to the Go library, not to this program, and is not stable.
  What it promises is all that is used: the nodes afterwards are the nodes before,
  rearranged so that no node is \<open>Less\<close> than one standing before it.
\<close>

definition Sort_result :: "(int \<Rightarrow> position) \<Rightarrow> expr list \<Rightarrow> expr list \<Rightarrow> bool" where
  "Sort_result fset nodes out \<longleftrightarrow>
     mset out = mset nodes \<and> sorted_wrt (\<lambda>a b. \<not> Less fset b a) out"

text \<open>One sort that keeps the promise: insertion from the right.\<close>

fun insert_node :: "(int \<Rightarrow> position) \<Rightarrow> expr \<Rightarrow> expr list \<Rightarrow> expr list" where
  "insert_node fset n [] = [n]"
| "insert_node fset n (m # ms) =
     (if Less fset m n then m # insert_node fset n ms else n # m # ms)"

fun insertion_sort :: "(int \<Rightarrow> position) \<Rightarrow> expr list \<Rightarrow> expr list" where
  "insertion_sort fset [] = []"
| "insertion_sort fset (n # ns) = insert_node fset n (insertion_sort fset ns)"

text \<open>The local types of lines 354-362.\<close>

record highlight =
  start :: int
  end' :: int

record result =
  filename :: string
  line :: int
  highlights :: "highlight list"

text \<open>Line 369: the span of a node, in columns counted from 0.\<close>

definition span :: "(int \<Rightarrow> position) \<Rightarrow> expr \<Rightarrow> highlight" where
  "span fset n =
     (let p = fset (Pos_n n) in
      \<lparr> start = Column p - 1, end' = Column p - 1 + (End_n n - Pos_n n) \<rparr>)"

text \<open>
  Lines 367-380: the grouping loop. \<^verbatim>\<open>curr\<close> (here \<open>cur\<close>) points at the record appended last,
  and appending a highlight through it changes that record. The state of the loop is
  therefore the records appended before the current one, and the current one
  (\<open>None\<close> while \<^verbatim>\<open>curr\<close> is nil).
\<close>

definition group_step ::
  "(int \<Rightarrow> position) \<Rightarrow> result list \<times> result option \<Rightarrow> expr \<Rightarrow> result list \<times> result option" where
  "group_step fset st n =
     (let p = fset (Pos_n n); hl = span fset n in
      case st of
        (results, None) \<Rightarrow>
          (results, Some \<lparr> filename = Filename p, line = Line p, highlights = [hl] \<rparr>)
      | (results, Some cur) \<Rightarrow>
          if Filename p = filename cur \<and> Line p = line cur
          then (results, Some (cur \<lparr> highlights := highlights cur @ [hl] \<rparr>))
          else (results @ [cur],
                Some \<lparr> filename = Filename p, line = Line p, highlights = [hl] \<rparr>))"

definition results_of :: "result list \<times> result option \<Rightarrow> result list" where
  "results_of st = (case st of (results, None) \<Rightarrow> results | (results, Some cur) \<Rightarrow> results @ [cur])"

definition group :: "(int \<Rightarrow> position) \<Rightarrow> expr list \<Rightarrow> result list" where
  "group fset nodes = results_of (foldl (group_step fset) ([], None) nodes)"

section \<open>The run (main.go, lines 92-380)\<close>

text \<open>
  A run of \<^verbatim>\<open>main\<close> on a target, with the packages that the loader returned, up to
  the display records that are then printed one per line. The target is parsed; the
  packages are scanned; the collector appends the nodes in the order in which they
  arrive, which is some arrangement of the nodes sent; they are sorted and grouped.
  A panic ends the run. The usage error for fewer than two arguments and a fatal
  failure of the loader come before any of this and are not part of the relation.
\<close>

inductive run ::
  "string \<Rightarrow> (int \<Rightarrow> position) \<Rightarrow> bool \<Rightarrow> packageInfo list \<Rightarrow> error + result list \<Rightarrow> bool" where
  parse_panic:
    "parseTarget target = Inl e \<Longrightarrow> run target fset quiet pkgs (Inl e)"
| scan_panic:
    "parseTarget target = Inr q \<Longrightarrow> snd (scanPackages q quiet pkgs) = Inl e
     \<Longrightarrow> run target fset quiet pkgs (Inl e)"
| completes:
    "parseTarget target = Inr q \<Longrightarrow> snd (scanPackages q quiet pkgs) = Inr sent
     \<Longrightarrow> mset arrived = mset sent \<Longrightarrow> Sort_result fset arrived ordered
     \<Longrightarrow> run target fset quiet pkgs (Inr (group fset ordered))"

section \<open>What the sorter and the grouping loop read of a node\<close>

text \<open>
  The pair that \<open>Less\<close> compares, in the lexicographic order of pairs.
\<close>

definition sort_key :: "(int \<Rightarrow> position) \<Rightarrow> expr \<Rightarrow> string \<times> int" where
  "sort_key fset n = (Filename (fset (Pos_n n)), Offset (fset (Pos_n n)))"

text \<open>
  What the grouping loop reads of a node: the file name, line and column of its
  position, and its length \<^verbatim>\<open>n.End() - n.Pos()\<close>.
\<close>

definition shown :: "(int \<Rightarrow> position) \<Rightarrow> expr \<Rightarrow> (string \<times> int \<times> int) \<times> int" where
  "shown fset n =
     ((Filename (fset (Pos_n n)), Line (fset (Pos_n n)), Column (fset (Pos_n n))),
      End_n n - Pos_n n)"

text \<open>
  The file name and line of a node, which decide whether the grouping loop merges
  it into the current record, and the file name and line of a record; and the record
  that the loop starts for a node (lines 373-377).
\<close>

definition line_key :: "(int \<Rightarrow> position) \<Rightarrow> expr \<Rightarrow> string \<times> int" where
  "line_key fset n = (Filename (fset (Pos_n n)), Line (fset (Pos_n n)))"

definition record_key :: "result \<Rightarrow> string \<times> int" where
  "record_key r = (filename r, line r)"

definition new_record :: "(int \<Rightarrow> position) \<Rightarrow> expr \<Rightarrow> result" where
  "new_record fset n =
     \<lparr> filename = Filename (fset (Pos_n n)), line = Line (fset (Pos_n n)),
       highlights = [span fset n] \<rparr>"

section \<open>What the type checker promises about positional literals\<close>

text \<open>
  The front end is go/types, outside this program. For a struct literal written
  without keys it reports an error unless the literal has exactly one value for each
  field (too few or too many values), and the loader records the error in the
  \<^verbatim>\<open>Errors\<close> of the package. So in a package without errors every positional struct
  literal has as many elements as its struct has fields: the invariant that the comment
  on line 330 of main.go states.
\<close>

definition typeChecked :: "packageInfo \<Rightarrow> bool" where
  "typeChecked pi \<longleftrightarrow>
     (Errors pi = [] \<longrightarrow>
        (\<forall>(lit, tv) \<in> set (Types pi). \<forall>p e elt elts flds.
           lit = CompositeLit p e (elt # elts) \<and> (\<forall>k v. elt \<noteq> KeyValueExpr k v) \<and>
           Underlying tv = Struct flds
           \<longrightarrow> length (elt # elts) = length flds))"

section \<open>An example corpus\<close>

text \<open>
  One file \<^verbatim>\<open>client.go\<close> whose lines are 100 bytes long, so that the position at
  offset \<open>pos\<close> is on line \<open>1 + pos div 100\<close>, column \<open>1 + pos mod 100\<close>; a package
  \<^verbatim>\<open>main\<close> that defines a variable \<^verbatim>\<open>c\<close> of type \<^verbatim>\<open>*http.Client\<close> at offset 204
  and uses it at offset 230, after naming the type \<^verbatim>\<open>Client\<close> at offset 216; and a
  package \<^verbatim>\<open>broken\<close> with two type-checking errors.
\<close>

definition example_fset :: "int \<Rightarrow> position" where
  "example_fset pos =
     \<lparr> Filename = ''client.go'', Offset = pos, Line = 1 + pos div 100, Column = 1 + pos mod 100 \<rparr>"

definition example_Client :: ty where
  "example_Client =
     Named (Some \<lparr> Path = ''net/http'', PkgName = ''http'' \<rparr>) ''Client''
       (Struct [(''Timeout'', Basic ''int64'')])"

definition example_uses :: "(ident \<times> object) list" where
  "example_uses =
     [(\<lparr> NamePos = 230, Name = ''c'' \<rparr>,
       Object Var (Some \<lparr> Path = ''main'', PkgName = ''main'' \<rparr>) ''c'' (Pointer example_Client)),
      (\<lparr> NamePos = 216, Name = ''Client'' \<rparr>,
       Object TypeName (Some \<lparr> Path = ''net/http'', PkgName = ''http'' \<rparr>) ''Client''
         example_Client)]"

definition example_pkg :: packageInfo where
  "example_pkg =
     \<lparr> Pkg = \<lparr> Path = ''main'', PkgName = ''main'' \<rparr>,
       Errors = [],
       Selections = [],
       Uses = example_uses,
       Defs = [(\<lparr> NamePos = 204, Name = ''c'' \<rparr>,
                Some (Object Var (Some \<lparr> Path = ''main'', PkgName = ''main'' \<rparr>) ''c''
                        (Pointer example_Client)))],
       Types = [] \<rparr>"

definition example_broken :: packageInfo where
  "example_broken =
     \<lparr> Pkg = \<lparr> Path = ''broken'', PkgName = ''broken'' \<rparr>,
       Errors = [''undeclared name: x'', ''missing return''],
       Selections = [],
       Uses = [(\<lparr> NamePos = 530, Name = ''d'' \<rparr>,
               Object Var (Some \<lparr> Path = ''broken'', PkgName = ''broken'' \<rparr>) ''d'' example_Client)],
       Defs = [],
       Types = [] \<rparr>"

text \<open>
  A package \<^verbatim>\<open>go/ast\<close> holding the positional literal
  \<^verbatim>\<open>Package{pkgName, pkgScope, imports, files}\<close>, and a package with a type error: a
  positional literal of one value for a struct of two fields.
\<close>

definition example_Package :: ty where
  "example_Package =
     Named (Some \<lparr> Path = ''go/ast'', PkgName = ''ast'' \<rparr>) ''Package''
       (Struct [(''Name'', Basic ''string''), (''Scope'', Pointer (Basic ''Scope'')),
                (''Imports'', Basic ''map''), (''Files'', Basic ''map'')])"

definition example_literal :: expr where
  "example_literal =
     CompositeLit 20 60 [Ident \<lparr> NamePos = 29, Name = ''pkgName'' \<rparr>,
                         Ident \<lparr> NamePos = 38, Name = ''pkgScope'' \<rparr>,
                         Ident \<lparr> NamePos = 48, Name = ''imports'' \<rparr>,
                         Ident \<lparr> NamePos = 57, Name = ''files'' \<rparr>]"

definition example_ast :: packageInfo where
  "example_ast =
     \<lparr> Pkg = \<lparr> Path = ''go/ast'', PkgName = ''ast'' \<rparr>,
       Errors = [],
       Selections = [],
       Uses = [],
       Defs = [],
       Types = [(example_literal, example_Package)] \<rparr>"

definition example_short :: packageInfo where
  "example_short =
     \<lparr> Pkg = \<lparr> Path = ''short'', PkgName = ''short'' \<rparr>,
       Errors = [''too few values in struct literal''],
       Selections = [],
       Uses = [],
       Defs = [],
       Types = [(CompositeLit 120 140 [Ident \<lparr> NamePos = 129, Name = ''imports'' \<rparr>],
                 Named (Some \<lparr> Path = ''go/ast'', PkgName = ''ast'' \<rparr>) ''Package''
                   (Struct [(''Imports'', Basic ''map''), (''Files'', Basic ''map'')]))] \<rparr>"

text \<open>
  Positions under \<^verbatim>\<open>//line\<close> directives. \<^verbatim>\<open>fset.Position\<close> applies them to the file
  name and the line, not to the offset, which stays the offset in the file read. Two
  files of one package that both carry \<^verbatim>\<open>//line gen.y:N\<close> (positions below 1000 are
  in the first, from 1000 on in the second) then give the same file name and offset to
  two different tokens, here \<^verbatim>\<open>x\<close> at offset 29 of the first file, shown on line 7,
  and \<^verbatim>\<open>yy\<close> at offset 29 of the second, shown on line 9.
\<close>

definition tie_fset :: "int \<Rightarrow> position" where
  "tie_fset pos =
     (if pos < 1000
      then \<lparr> Filename = ''gen.y'', Offset = pos, Line = 7, Column = pos - 19 \<rparr>
      else \<lparr> Filename = ''gen.y'', Offset = pos - 1000, Line = 9, Column = pos - 1019 \<rparr>)"

definition tie_pkg :: packageInfo where
  "tie_pkg =
     \<lparr> Pkg = \<lparr> Path = ''p'', PkgName = ''p'' \<rparr>,
       Errors = [],
       Selections = [],
       Uses = [],
       Defs = [(\<lparr> NamePos = 29, Name = ''x'' \<rparr>,
                Some (Object Var (Some \<lparr> Path = ''p'', PkgName = ''p'' \<rparr>) ''x''
                        (Named (Some \<lparr> Path = ''p'', PkgName = ''p'' \<rparr>) ''T'' (Basic ''int'')))),
               (\<lparr> NamePos = 1029, Name = ''yy'' \<rparr>,
                Some (Object Var (Some \<lparr> Path = ''p'', PkgName = ''p'' \<rparr>) ''yy''
                        (Named (Some \<lparr> Path = ''p'', PkgName = ''p'' \<rparr>) ''T'' (Basic ''int''))))],
       Types = [] \<rparr>"

text \<open>
  One file in which two physical lines, starting at offsets 100 and 200, are both
  mapped to line 5 of \<^verbatim>\<open>gen.go\<close> by \<^verbatim>\<open>//line\<close> directives: the columns start again
  on the second, so a later offset can have a smaller column on the same line.
\<close>

definition skew_fset :: "int \<Rightarrow> position" where
  "skew_fset pos =
     \<lparr> Filename = ''gen.go'', Offset = pos, Line = 5,
       Column = (if pos < 200 then pos - 99 else pos - 199) \<rparr>"

section \<open>Splitting and joining\<close>

lemma Split_not_Nil: "Split s sep \<noteq> []"
  by (induction s) (auto split: list.splits)

lemma Split_no_sep: "sep \<notin> set s \<Longrightarrow> Split s sep = [s]"
  by (induction s) auto

lemma Split_append_sep: "sep \<notin> set a \<Longrightarrow> Split (a @ sep # s) sep = a # Split s sep"
  by (induction a) auto

lemma Split_Join:
  "segs \<noteq> [] \<Longrightarrow> \<forall>s \<in> set segs. sep \<notin> set s \<Longrightarrow> Split (Join segs sep) sep = segs"
proof (induction segs sep rule: Join.induct)
  case (3 a b elems sep)
  then show ?case by (simp add: Split_append_sep)
qed (simp_all add: Split_no_sep)

lemma Join_Cons_head: "Join ((c # a) # elems) sep = c # Join (a # elems) sep"
  by (cases elems) simp_all

lemma Join_Split: "Join (Split s sep) sep = s"
proof (induction s)
  case Nil
  then show ?case by simp
next
  case (Cons c s)
  then show ?case
    by (cases "Split s sep") (auto simp: Split_not_Nil Join_Cons_head)
qed

lemma Split_segments: "seg \<in> set (Split s sep) \<Longrightarrow> sep \<notin> set seg"
  by (induction s arbitrary: seg) (auto split: if_splits list.splits)

lemma Join_set: "set (Join elems sep) \<subseteq> \<Union> (set ` set elems) \<union> {sep}"
  by (induction elems sep rule: Join.induct) auto

section \<open>The query parser\<close>

lemma parseTarget_segments:
  assumes "Split target CHR ''/'' = segs @ [lastseg]"
    and "Split lastseg CHR ''.'' = d1 # d2 # ds"
  shows "parseTarget target =
    Inr \<lparr> pkgPath = Join (segs @ [d1]) CHR ''/'', objName = d2,
          selName = (case ds of [] \<Rightarrow> [] | d3 # _ \<Rightarrow> d3) \<rparr>"
  using assms by (simp add: parseTarget_def Let_def nth_append split: list.splits)

text \<open>
  C9. When the last \<^verbatim>\<open>/\<close>-segment of the target has at least two dot-segments
  \<open>d1\<close>, \<open>d2\<close> and possibly more, parsing succeeds: the package path is the leading
  \<^verbatim>\<open>/\<close>-segments and \<open>d1\<close> joined by \<^verbatim>\<open>/\<close>, the object name is \<open>d2\<close>, and the
  selector name is the third dot-segment when there is one and empty otherwise.
\<close>

theorem parseTarget_wellformed:
  assumes "Split target CHR ''/'' = segs @ [lastseg]"
    and "Split lastseg CHR ''.'' = d1 # d2 # ds"
  shows "parseTarget target =
    Inr \<lparr> pkgPath = Join (segs @ [d1]) CHR ''/'', objName = d2,
          selName = (case ds of [] \<Rightarrow> [] | d3 # _ \<Rightarrow> d3) \<rparr>"
  using assms by (simp add: parseTarget_def Let_def nth_append split: list.splits)

theorem parseTarget_wellformed_witness:
  "Split ''encoding/json.Encoder.Encode'' CHR ''/'' = [''encoding''] @ [''json.Encoder.Encode''] \<and>
   Split ''json.Encoder.Encode'' CHR ''.'' = ''json'' # ''Encoder'' # [''Encode''] \<and>
   parseTarget ''encoding/json.Encoder.Encode'' =
     Inr \<lparr> pkgPath = ''encoding/json'', objName = ''Encoder'', selName = ''Encode'' \<rparr>"
proof -
  have h1: "Split ''encoding/json.Encoder.Encode'' CHR ''/'' = [''encoding''] @ [''json.Encoder.Encode'']"
    by simp
  have h2: "Split ''json.Encoder.Encode'' CHR ''.'' = ''json'' # ''Encoder'' # [''Encode'']"
    by simp
  show ?thesis using h1 h2 parseTarget_wellformed [OF h1 h2] by simp
qed

text \<open>
  The same, read from the parts: a target written as path segments without \<^verbatim>\<open>/\<close>,
  followed by dot-segments without \<^verbatim>\<open>.\<close> and \<^verbatim>\<open>/\<close>, is parsed back into them.
\<close>

lemma parseTarget_of_parts:
  assumes "\<forall>s \<in> set segs. CHR ''/'' \<notin> set s"
    and "\<forall>d \<in> set (d1 # d2 # ds). CHR ''.'' \<notin> set d \<and> CHR ''/'' \<notin> set d"
  shows "parseTarget (Join (segs @ [Join (d1 # d2 # ds) CHR ''.'']) CHR ''/'') =
    Inr \<lparr> pkgPath = Join (segs @ [d1]) CHR ''/'', objName = d2,
          selName = (case ds of [] \<Rightarrow> [] | d3 # _ \<Rightarrow> d3) \<rparr>"
proof -
  let ?lastseg = "Join (d1 # d2 # ds) CHR ''.''"
  have names: "Split ?lastseg CHR ''.'' = d1 # d2 # ds"
    using assms(2) by (intro Split_Join) auto
  have "CHR ''/'' \<notin> set ?lastseg"
    using assms(2) Join_set [of "d1 # d2 # ds" "CHR ''.''"] by auto
  then have paths: "Split (Join (segs @ [?lastseg]) CHR ''/'') CHR ''/'' = segs @ [?lastseg]"
    using assms(1) by (intro Split_Join) auto
  from paths names show ?thesis by (rule parseTarget_segments)
qed

lemma run_parse_panic_iff:
  "parseTarget target = Inl e \<Longrightarrow> run target fset quiet pkgs out \<longleftrightarrow> out = Inl e"
  by (auto simp: run.simps)

lemma parseTarget_malformed_aborts:
  assumes "length (Split (last (Split target CHR ''/'')) CHR ''.'') < 2"
  shows "parseTarget target = Inl IndexOutOfRange \<and>
         (run target fset quiet pkgs out \<longleftrightarrow> out = Inl IndexOutOfRange)"
proof -
  have "parseTarget target = Inl IndexOutOfRange"
    using assms by (simp add: parseTarget_def Let_def last_conv_nth Split_not_Nil)
  then show ?thesis by (simp add: run_parse_panic_iff)
qed

text \<open>
  C2. The target \<^verbatim>\<open>fmt\<close> has one dot-segment. \<^verbatim>\<open>names[1]\<close> on line 118 is out of
  range, so parsing panics and the run ends in the panic, whatever the packages. The
  specification has the run complete with zero display records; it does not. The
  length of \<^verbatim>\<open>names\<close> is checked only before \<^verbatim>\<open>names[2]\<close> on line 120.
\<close>

theorem malformed_query_panics:
  "parseTarget ''fmt'' = Inl IndexOutOfRange \<and>
   run ''fmt'' example_fset False [example_pkg] (Inl IndexOutOfRange) \<and>
   \<not> run ''fmt'' example_fset False [example_pkg] (Inr [])"
proof -
  have "parseTarget ''fmt'' = Inl IndexOutOfRange"
    by (simp add: parseTarget_def)
  then show ?thesis
    by (simp add: run_parse_panic_iff)
qed

section \<open>The type matcher\<close>

lemma stripPointers_funpow: "stripPointers ((Pointer ^^ n) t) = stripPointers t"
  by (induction n) simp_all

lemma stripPointers_decompose: "\<exists>n. T = (Pointer ^^ n) (stripPointers T)"
proof (induction T)
  case (Pointer elem)
  then obtain n where "elem = (Pointer ^^ n) (stripPointers elem)" by blast
  then have "Pointer elem = (Pointer ^^ Suc n) (stripPointers (Pointer elem))" by simp
  then show ?case by blast
next
  case (Named pkg name u)
  have "Named pkg name u = (Pointer ^^ 0) (stripPointers (Named pkg name u))" by simp
  then show ?case by blast
qed (rule exI [of _ 0], simp)+

lemma stripPointers_not_Pointer: "stripPointers T \<noteq> Pointer t"
  by (induction T) simp_all

text \<open>
  C1. \<open>fieldMatches\<close> is true exactly when the selector equals the query's
  selector name and the type is, under some number of pointer indirections, a named
  type declared in a package whose import path is the query's package path and whose
  name is the query's object name. A named type without a declaring package is
  never matched, whatever its name.
\<close>

theorem fieldMatches_iff:
  "(fieldMatches q typ sel \<longleftrightarrow>
      sel = selName q \<and>
      (\<exists>n p u. typ = (Pointer ^^ n) (Named (Some p) (objName q) u) \<and> Path p = pkgPath q))
   \<and> \<not> fieldMatches q ((Pointer ^^ k) (Named None name t)) sel'"
proof
  show "fieldMatches q typ sel \<longleftrightarrow>
      sel = selName q \<and>
      (\<exists>n p u. typ = (Pointer ^^ n) (Named (Some p) (objName q) u) \<and> Path p = pkgPath q)"
  proof
    assume m: "fieldMatches q typ sel"
    then have s: "sel = selName q"
      by (simp add: fieldMatches_def split: if_splits)
    from m obtain p u where st: "stripPointers typ = Named (Some p) (objName q) u"
      and p: "Path p = pkgPath q"
      by (auto simp: fieldMatches_def split: if_splits ty.splits option.splits)
    obtain n where "typ = (Pointer ^^ n) (stripPointers typ)"
      using stripPointers_decompose by blast
    with st have "typ = (Pointer ^^ n) (Named (Some p) (objName q) u)" by simp
    with s p show "sel = selName q \<and>
      (\<exists>n p u. typ = (Pointer ^^ n) (Named (Some p) (objName q) u) \<and> Path p = pkgPath q)"
      by blast
  next
    assume "sel = selName q \<and>
      (\<exists>n p u. typ = (Pointer ^^ n) (Named (Some p) (objName q) u) \<and> Path p = pkgPath q)"
    then show "fieldMatches q typ sel"
      by (auto simp: fieldMatches_def stripPointers_funpow)
  qed
next
  show "\<not> fieldMatches q ((Pointer ^^ k) (Named None name t)) sel'"
    by (simp add: fieldMatches_def stripPointers_funpow)
qed

theorem fieldMatches_iff_witness:
  "fieldMatches \<lparr> pkgPath = ''net/http'', objName = ''Client'', selName = '''' \<rparr>
     (Pointer (Named (Some \<lparr> Path = ''net/http'', PkgName = ''http'' \<rparr>) ''Client'' (Struct [])))
     ''''
   \<and> \<not> fieldMatches \<lparr> pkgPath = ''net/http'', objName = ''Client'', selName = '''' \<rparr>
     (Named None ''error'' (Interface [''Error''])) ''''"
  using fieldMatches_iff
    [of "\<lparr> pkgPath = ''net/http'', objName = ''Client'', selName = '''' \<rparr>"
        "Pointer (Named (Some \<lparr> Path = ''net/http'', PkgName = ''http'' \<rparr>) ''Client'' (Struct []))"
        "''''" 0 "''error''" "Interface [''Error'']" "''''"]
  by (simp add: fieldMatches_def)

section \<open>The use scanner\<close>

lemma scanUses_filter:
  "scanUses q uses =
     map (\<lambda>entry. Ident (fst entry))
       (filter (\<lambda>entry. Kind_of (snd entry) \<noteq> TypeName \<and>
          ((Kind_of (snd entry) = Func \<and>
              (\<exists>p. Pkg_of (snd entry) = Some p \<and> Path p = pkgPath q) \<and>
              Name_of (snd entry) = objName q)
           \<or> fieldMatches q (Type_of (snd entry)) [])) uses)"
proof (induction uses)
  case Nil
  then show ?case by simp
next
  case (Cons entry uses)
  obtain ident obj where entry: "entry = (ident, obj)" by (cases entry)
  have "(case Pkg_of obj of None \<Rightarrow> False | Some p \<Rightarrow> Path p = pkgPath q \<and> Name_of obj = objName q)
        \<longleftrightarrow> (\<exists>p. Pkg_of obj = Some p \<and> Path p = pkgPath q) \<and> Name_of obj = objName q"
    by (cases "Pkg_of obj") simp_all
  then show ?case
    using Cons.IH by (simp add: entry)
qed

lemma scanUses_set:
  "set (scanUses q uses) =
     {Ident ident | ident obj. (ident, obj) \<in> set uses \<and> Kind_of obj \<noteq> TypeName \<and>
        ((Kind_of obj = Func \<and> (\<exists>p. Pkg_of obj = Some p \<and> Path p = pkgPath q) \<and>
            Name_of obj = objName q)
         \<or> fieldMatches q (Type_of obj) [])}"
  unfolding scanUses_filter by force

lemma scanUses_member:
  assumes "distinct (map fst uses)" and "(ident, obj) \<in> set uses"
  shows "Ident ident \<in> set (scanUses q uses) \<longleftrightarrow>
         Kind_of obj \<noteq> TypeName \<and>
         ((Kind_of obj = Func \<and> (\<exists>p. Pkg_of obj = Some p \<and> Path p = pkgPath q) \<and>
             Name_of obj = objName q)
          \<or> fieldMatches q (Type_of obj) [])"
proof -
  have "obj' = obj" if "(ident, obj') \<in> set uses" for obj'
    using assms that by (meson eq_key_imp_eq_value)
  with assms(2) show ?thesis
    unfolding scanUses_set by blast
qed

text \<open>
  C4. For an entry of the use plane (a Go map, so no identifier is bound twice):
  an identifier bound to a type name is not sent; one bound to a function or method
  whose package path and name are those of the query is sent, whatever its type; any
  other is sent exactly when \<open>fieldMatches\<close> accepts the type of its object with the
  empty selector.
\<close>

theorem scanUses_entry:
  assumes "distinct (map fst uses)" and "(ident, obj) \<in> set uses"
  shows "(Kind_of obj = TypeName \<longrightarrow> Ident ident \<notin> set (scanUses q uses)) \<and>
         (Kind_of obj = Func \<and> (\<exists>p. Pkg_of obj = Some p \<and> Path p = pkgPath q) \<and>
            Name_of obj = objName q \<longrightarrow> Ident ident \<in> set (scanUses q uses)) \<and>
         (Kind_of obj \<noteq> TypeName \<and>
          \<not> (Kind_of obj = Func \<and> (\<exists>p. Pkg_of obj = Some p \<and> Path p = pkgPath q) \<and>
               Name_of obj = objName q) \<longrightarrow>
            (Ident ident \<in> set (scanUses q uses) \<longleftrightarrow> fieldMatches q (Type_of obj) []))"
  unfolding scanUses_member [OF assms] by auto

theorem scanUses_entry_witness:
  "Ident \<lparr> NamePos = 7, Name = ''Client'' \<rparr> \<notin> set (scanUses
      \<lparr> pkgPath = ''net/http'', objName = ''Client'', selName = [] \<rparr>
      [(\<lparr> NamePos = 7, Name = ''Client'' \<rparr>,
        Object TypeName (Some \<lparr> Path = ''net/http'', PkgName = ''http'' \<rparr>) ''Client''
          (Named (Some \<lparr> Path = ''net/http'', PkgName = ''http'' \<rparr>) ''Client'' (Struct []))),
       (\<lparr> NamePos = 30, Name = ''c'' \<rparr>,
        Object Var (Some \<lparr> Path = ''main'', PkgName = ''main'' \<rparr>) ''c''
          (Pointer (Named (Some \<lparr> Path = ''net/http'', PkgName = ''http'' \<rparr>) ''Client'' (Struct []))))])
   \<and> Ident \<lparr> NamePos = 30, Name = ''c'' \<rparr> \<in> set (scanUses
      \<lparr> pkgPath = ''net/http'', objName = ''Client'', selName = [] \<rparr>
      [(\<lparr> NamePos = 7, Name = ''Client'' \<rparr>,
        Object TypeName (Some \<lparr> Path = ''net/http'', PkgName = ''http'' \<rparr>) ''Client''
          (Named (Some \<lparr> Path = ''net/http'', PkgName = ''http'' \<rparr>) ''Client'' (Struct []))),
       (\<lparr> NamePos = 30, Name = ''c'' \<rparr>,
        Object Var (Some \<lparr> Path = ''main'', PkgName = ''main'' \<rparr>) ''c''
          (Pointer (Named (Some \<lparr> Path = ''net/http'', PkgName = ''http'' \<rparr>) ''Client'' (Struct []))))])"
proof -
  let ?q = "\<lparr> pkgPath = ''net/http'', objName = ''Client'', selName = [] \<rparr>"
  let ?T = "Named (Some \<lparr> Path = ''net/http'', PkgName = ''http'' \<rparr>) ''Client'' (Struct [])"
  let ?o1 = "Object TypeName (Some \<lparr> Path = ''net/http'', PkgName = ''http'' \<rparr>) ''Client'' ?T"
  let ?o2 = "Object Var (Some \<lparr> Path = ''main'', PkgName = ''main'' \<rparr>) ''c'' (Pointer ?T)"
  let ?i1 = "\<lparr> NamePos = 7, Name = ''Client'' \<rparr>"
  let ?i2 = "\<lparr> NamePos = 30, Name = ''c'' \<rparr>"
  let ?uses = "[(?i1, ?o1), (?i2, ?o2)]"
  have d: "distinct (map fst ?uses)" by simp
  have m1: "(?i1, ?o1) \<in> set ?uses" and m2: "(?i2, ?o2) \<in> set ?uses" by simp_all
  have f: "fieldMatches ?q (Type_of ?o2) []" by (simp add: fieldMatches_def)
  show ?thesis
    using scanUses_entry [OF d m1, of ?q] scanUses_entry [OF d m2, of ?q] f by simp
qed

text \<open>
  C10. When the query has a selector name, \<open>fieldMatches\<close> with the empty selector
  rejects every type, yet an identifier bound to a function or method with the
  query's package path and object name is still sent: the bypass never looks at the
  selector name.
\<close>

theorem callable_bypass_ignores_selName:
  assumes "selName q \<noteq> []"
    and "(ident, obj) \<in> set uses"
    and "Kind_of obj = Func" and "Pkg_of obj = Some p" and "Path p = pkgPath q"
    and "Name_of obj = objName q"
  shows "Ident ident \<in> set (scanUses q uses) \<and> \<not> fieldMatches q t []"
proof
  show "Ident ident \<in> set (scanUses q uses)"
    unfolding scanUses_set using assms(2-6) by auto
  show "\<not> fieldMatches q t []"
    using assms(1) by (simp add: fieldMatches_def)
qed

theorem callable_bypass_ignores_selName_witness:
  "Ident \<lparr> NamePos = 40, Name = ''Encode'' \<rparr> \<in> set (scanUses
      \<lparr> pkgPath = ''p'', objName = ''Encode'', selName = ''Field'' \<rparr>
      [(\<lparr> NamePos = 40, Name = ''Encode'' \<rparr>,
        Object Func (Some \<lparr> Path = ''p'', PkgName = ''p'' \<rparr>) ''Encode'' (Signature [] []))])
   \<and> \<not> fieldMatches \<lparr> pkgPath = ''p'', objName = ''Encode'', selName = ''Field'' \<rparr>
        (Signature [] []) []"
proof -
  let ?q = "\<lparr> pkgPath = ''p'', objName = ''Encode'', selName = ''Field'' \<rparr>"
  let ?p = "\<lparr> Path = ''p'', PkgName = ''p'' \<rparr>"
  let ?obj = "Object Func (Some ?p) ''Encode'' (Signature [] [])"
  let ?i = "\<lparr> NamePos = 40, Name = ''Encode'' \<rparr>"
  have "selName ?q \<noteq> []" "(?i, ?obj) \<in> set [(?i, ?obj)]" "Kind_of ?obj = Func"
    "Pkg_of ?obj = Some ?p" "Path ?p = pkgPath ?q" "Name_of ?obj = objName ?q"
    by simp_all
  from callable_bypass_ignores_selName [OF this, of "Signature [] []"] show ?thesis .
qed

section \<open>The composite-literal field scanner\<close>

lemma scanPositional_from:
  assumes "i + length elts \<le> length flds"
  shows "(\<exists>k < length elts. fst (flds ! (i + k)) = selName q \<and>
            (\<forall>j < k. fst (flds ! (i + j)) \<noteq> selName q) \<and>
            scanPositional q flds i elts = Inr (Some (elts ! k))) \<or>
         ((\<forall>k < length elts. fst (flds ! (i + k)) \<noteq> selName q) \<and>
            scanPositional q flds i elts = Inr None)"
  using assms
proof (induction elts arbitrary: i)
  case Nil
  then show ?case by simp
next
  case (Cons elt elts)
  show ?case
  proof (cases "fst (flds ! i) = selName q")
    case True
    with Cons.prems have "scanPositional q flds i (elt # elts) = Inr (Some ((elt # elts) ! 0))"
      by simp
    with True show ?thesis by (intro disjI1 exI [of _ 0]) simp
  next
    case False
    with Cons.prems have step: "scanPositional q flds i (elt # elts) = scanPositional q flds (Suc i) elts"
      by simp
    from Cons.prems have "Suc i + length elts \<le> length flds" by simp
    from Cons.IH [OF this] show ?thesis
    proof
      assume "\<exists>k<length elts. fst (flds ! (Suc i + k)) = selName q \<and>
            (\<forall>j < k. fst (flds ! (Suc i + j)) \<noteq> selName q) \<and>
            scanPositional q flds (Suc i) elts = Inr (Some (elts ! k))"
      then obtain k where k: "k < length elts" "fst (flds ! (Suc i + k)) = selName q"
        "\<forall>j < k. fst (flds ! (Suc i + j)) \<noteq> selName q"
        "scanPositional q flds (Suc i) elts = Inr (Some (elts ! k))" by blast
      have "\<forall>j < Suc k. fst (flds ! (i + j)) \<noteq> selName q"
      proof (intro allI impI)
        fix j assume "j < Suc k"
        then show "fst (flds ! (i + j)) \<noteq> selName q"
          using False k(3) by (cases j) auto
      qed
      with k step show ?thesis
        by (intro disjI1 exI [of _ "Suc k"]) simp
    next
      assume a: "(\<forall>k<length elts. fst (flds ! (Suc i + k)) \<noteq> selName q) \<and>
            scanPositional q flds (Suc i) elts = Inr None"
      have "\<forall>k < length (elt # elts). fst (flds ! (i + k)) \<noteq> selName q"
      proof (intro allI impI)
        fix k assume "k < length (elt # elts)"
        then show "fst (flds ! (i + k)) \<noteq> selName q"
          using False a by (cases k) auto
      qed
      with a step show ?thesis by simp
    qed
  qed
qed

text \<open>
  The loop over a positional literal with at most as many elements as the struct has
  fields: the element sent is the one at the first index whose field is named
  \<open>selName\<close>, and nothing is sent when no field below the number of elements has that
  name.
\<close>

lemma scanTypeExpr_positional:
  assumes "fieldMatches q tv (selName q)"
    and "Underlying tv = Struct flds"
    and "elts = first # others" and "\<forall>k v. first \<noteq> KeyValueExpr k v"
    and "length elts \<le> length flds"
  shows "(\<exists>i < length elts. fst (flds ! i) = selName q \<and>
            (\<forall>j < i. fst (flds ! j) \<noteq> selName q) \<and>
            scanTypeExpr q (CompositeLit p e elts, tv) = Inr (Some (elts ! i))) \<or>
         ((\<forall>i < length elts. fst (flds ! i) \<noteq> selName q) \<and>
            scanTypeExpr q (CompositeLit p e elts, tv) = Inr None)"
proof -
  have "scanTypeExpr q (CompositeLit p e elts, tv) = scanPositional q flds 0 elts"
    using assms(1-4) by (cases first) simp_all
  moreover have "0 + length elts \<le> length flds" using assms(5) by simp
  ultimately show ?thesis
    using scanPositional_from [of 0 elts flds q] by simp
qed

section \<open>Packages with type-checking errors\<close>

lemma scanPackages_snd:
  "snd (scanPackages q quiet pkgs) =
     foldr (\<lambda>pi r. both (scanPackage q pi) r) (filter (\<lambda>pi. Errors pi = []) pkgs) (Inr [])"
  by (induction pkgs) (simp_all add: split_beta Let_def)

lemma scanPackages_fst:
  "fst (scanPackages q quiet pkgs) =
     (if quiet then [] else map diagnostic (filter (\<lambda>pi. Errors pi \<noteq> []) pkgs))"
  by (cases quiet; induction pkgs) (simp_all add: split_beta Let_def)

text \<open>
  C8. What the scanners send is what the scanners of the packages without errors
  send, each of them scanned in full: a package with errors contributes nothing, and
  removing the packages with errors from the list changes nothing. Each package with
  errors is logged with its diagnostic, in the order of the packages, unless the quiet
  flag is set, and then nothing is logged.
\<close>

theorem failing_packages_isolated:
  "snd (scanPackages q quiet pkgs) =
     foldr (\<lambda>pi r. both (scanPackage q pi) r) (filter (\<lambda>pi. Errors pi = []) pkgs) (Inr [])
   \<and> snd (scanPackages q quiet pkgs) = snd (scanPackages q quiet (filter (\<lambda>pi. Errors pi = []) pkgs))
   \<and> fst (scanPackages q quiet pkgs) =
     (if quiet then [] else map diagnostic (filter (\<lambda>pi. Errors pi \<noteq> []) pkgs))"
  by (simp add: scanPackages_snd scanPackages_fst)

lemma example_query:
  "parseTarget ''net/http.Client'' =
     Inr \<lparr> pkgPath = ''net/http'', objName = ''Client'', selName = [] \<rparr>"
  by (simp add: parseTarget_def)

lemma example_scanPackage:
  "scanPackage \<lparr> pkgPath = ''net/http'', objName = ''Client'', selName = [] \<rparr> example_pkg =
     Inr [Ident \<lparr> NamePos = 230, Name = ''c'' \<rparr>, Ident \<lparr> NamePos = 204, Name = ''c'' \<rparr>]"
  by (simp add: scanPackage_def example_pkg_def example_uses_def example_Client_def
      both_def fieldMatches_def)

lemma example_sent:
  "snd (scanPackages \<lparr> pkgPath = ''net/http'', objName = ''Client'', selName = [] \<rparr> False
          [example_broken, example_pkg]) =
     Inr [Ident \<lparr> NamePos = 230, Name = ''c'' \<rparr>, Ident \<lparr> NamePos = 204, Name = ''c'' \<rparr>]"
proof -
  have "Errors example_broken \<noteq> []" "Errors example_pkg = []"
    by (simp_all add: example_broken_def example_pkg_def)
  then show ?thesis
    by (simp add: example_scanPackage both_def split_beta)
qed

theorem failing_packages_isolated_witness:
  "fst (scanPackages \<lparr> pkgPath = ''net/http'', objName = ''Client'', selName = [] \<rparr> False
          [example_broken, example_pkg]) =
     [''broken: undeclared name: x and 1 error(s)'']
   \<and> fst (scanPackages \<lparr> pkgPath = ''net/http'', objName = ''Client'', selName = [] \<rparr> True
          [example_broken, example_pkg]) = []
   \<and> snd (scanPackages \<lparr> pkgPath = ''net/http'', objName = ''Client'', selName = [] \<rparr> False
          [example_broken, example_pkg]) =
     snd (scanPackages \<lparr> pkgPath = ''net/http'', objName = ''Client'', selName = [] \<rparr> False
          [example_pkg])"
proof -
  let ?q = "\<lparr> pkgPath = ''net/http'', objName = ''Client'', selName = [] \<rparr>"
  have e: "Errors example_broken = [''undeclared name: x'', ''missing return'']"
      "Errors example_pkg = []"
    by (simp_all add: example_broken_def example_pkg_def)
  have d: "diagnostic example_broken = ''broken: undeclared name: x and 1 error(s)''"
    by (simp add: diagnostic_def example_broken_def)
  show ?thesis
    using failing_packages_isolated [of ?q False "[example_broken, example_pkg]"]
      failing_packages_isolated [of ?q True "[example_broken, example_pkg]"]
    by (simp add: e d)
qed

section \<open>Positional literals and the field count\<close>

lemma scanPackages_skip:
  "Errors pi \<noteq> [] \<Longrightarrow>
   snd (scanPackages q quiet (pre @ pi # post)) = snd (scanPackages q quiet (pre @ post))"
  by (simp add: scanPackages_snd)

text \<open>
  C3. Take a positional literal of a struct type in the \<^verbatim>\<open>Types\<close> plane of a package
  that the type checker has checked. If its number of elements differs from the number
  of fields, the package has errors and is skipped by the loop over the packages: the
  literal yields no match, whatever the names of the fields. If the package has no
  errors, so that its literals are scanned, the number of elements equals the number of
  fields, and the scanner sends the element at the index of the first field named
  \<open>selName\<close> when the type matches and some field has that name, and nothing otherwise.
\<close>

theorem positional_needs_field_count:
  assumes "typeChecked pi"
    and "(CompositeLit p e (elt # elts), tv) \<in> set (Types pi)"
    and "\<forall>k v. elt \<noteq> KeyValueExpr k v"
    and "Underlying tv = Struct flds"
  shows "(length (elt # elts) \<noteq> length flds \<longrightarrow>
            Errors pi \<noteq> [] \<and>
            snd (scanPackages q quiet (pre @ pi # post)) = snd (scanPackages q quiet (pre @ post))) \<and>
         (Errors pi = [] \<longrightarrow>
            length (elt # elts) = length flds \<and>
            (\<not> fieldMatches q tv (selName q) \<longrightarrow>
               scanTypeExpr q (CompositeLit p e (elt # elts), tv) = Inr None) \<and>
            (fieldMatches q tv (selName q) \<longrightarrow>
               (\<exists>i < length flds. fst (flds ! i) = selName q \<and>
                   (\<forall>j < i. fst (flds ! j) \<noteq> selName q) \<and>
                   scanTypeExpr q (CompositeLit p e (elt # elts), tv) = Inr (Some ((elt # elts) ! i))) \<or>
               ((\<forall>i < length flds. fst (flds ! i) \<noteq> selName q) \<and>
                   scanTypeExpr q (CompositeLit p e (elt # elts), tv) = Inr None)))"
proof -
  have count: "length (elt # elts) = length flds" if "Errors pi = []"
    using assms that unfolding typeChecked_def by blast
  have mismatch: "Errors pi \<noteq> [] \<and>
      snd (scanPackages q quiet (pre @ pi # post)) = snd (scanPackages q quiet (pre @ post))"
    if "length (elt # elts) \<noteq> length flds"
  proof -
    from that count have "Errors pi \<noteq> []" by blast
    then show ?thesis by (simp add: scanPackages_skip)
  qed
  have unmatched: "scanTypeExpr q (CompositeLit p e (elt # elts), tv) = Inr None"
    if "\<not> fieldMatches q tv (selName q)"
    using that by simp
  have matched: "(\<exists>i < length flds. fst (flds ! i) = selName q \<and>
                   (\<forall>j < i. fst (flds ! j) \<noteq> selName q) \<and>
                   scanTypeExpr q (CompositeLit p e (elt # elts), tv) = Inr (Some ((elt # elts) ! i))) \<or>
               ((\<forall>i < length flds. fst (flds ! i) \<noteq> selName q) \<and>
                   scanTypeExpr q (CompositeLit p e (elt # elts), tv) = Inr None)"
    if "Errors pi = []" "fieldMatches q tv (selName q)"
  proof -
    from that(1) have len: "length (elt # elts) = length flds" by (rule count)
    then have "length (elt # elts) \<le> length flds" by simp
    from scanTypeExpr_positional [OF that(2) assms(4) refl assms(3) this, of p e]
    show ?thesis unfolding len .
  qed
  from count mismatch unmatched matched show ?thesis by blast
qed

theorem positional_needs_field_count_witness:
  "typeChecked example_ast \<and>
   scanTypeExpr \<lparr> pkgPath = ''go/ast'', objName = ''Package'', selName = ''Imports'' \<rparr>
     (example_literal, example_Package) = Inr (Some (Ident \<lparr> NamePos = 48, Name = ''imports'' \<rparr>)) \<and>
   typeChecked example_short \<and>
   snd (scanPackages \<lparr> pkgPath = ''go/ast'', objName = ''Package'', selName = ''Imports'' \<rparr> False
          ([example_ast] @ example_short # [])) =
   snd (scanPackages \<lparr> pkgPath = ''go/ast'', objName = ''Package'', selName = ''Imports'' \<rparr> False
          ([example_ast] @ []))"
proof -
  let ?q = "\<lparr> pkgPath = ''go/ast'', objName = ''Package'', selName = ''Imports'' \<rparr>"
  let ?flds = "[(''Name'', Basic ''string''), (''Scope'', Pointer (Basic ''Scope'')),
                (''Imports'', Basic ''map''), (''Files'', Basic ''map'')]"
  let ?elt = "Ident \<lparr> NamePos = 29, Name = ''pkgName'' \<rparr>"
  let ?elts = "[Ident \<lparr> NamePos = 38, Name = ''pkgScope'' \<rparr>,
                Ident \<lparr> NamePos = 48, Name = ''imports'' \<rparr>,
                Ident \<lparr> NamePos = 57, Name = ''files'' \<rparr>]"
  have t1: "typeChecked example_ast"
    by (simp add: typeChecked_def example_ast_def example_literal_def example_Package_def)
  have m1: "(CompositeLit 20 60 (?elt # ?elts), example_Package) \<in> set (Types example_ast)"
    by (simp add: example_ast_def example_literal_def)
  have k1: "\<forall>k v. ?elt \<noteq> KeyValueExpr k v" by simp
  have u1: "Underlying example_Package = Struct ?flds" by (simp add: example_Package_def)
  have e1: "Errors example_ast = []" by (simp add: example_ast_def)
  have f1: "fieldMatches ?q example_Package (selName ?q)"
    by (simp add: fieldMatches_def example_Package_def)
  let ?short = "[Ident \<lparr> NamePos = 129, Name = ''imports'' \<rparr>]"
  let ?sflds = "[(''Imports'', Basic ''map''), (''Files'', Basic ''map'')]"
  let ?sT = "Named (Some \<lparr> Path = ''go/ast'', PkgName = ''ast'' \<rparr>) ''Package'' (Struct ?sflds)"
  have t2: "typeChecked example_short"
    by (simp add: typeChecked_def example_short_def)
  have m2: "(CompositeLit 120 140 (Ident \<lparr> NamePos = 129, Name = ''imports'' \<rparr> # []), ?sT)
              \<in> set (Types example_short)"
    by (simp add: example_short_def)
  have k2: "\<forall>k v. Ident \<lparr> NamePos = 129, Name = ''imports'' \<rparr> \<noteq> KeyValueExpr k v" by simp
  have u2: "Underlying ?sT = Struct ?sflds" by simp
  from positional_needs_field_count [OF t1 m1 k1 u1, of ?q False "[]" "[]"] e1 f1
  have "scanTypeExpr ?q (CompositeLit 20 60 (?elt # ?elts), example_Package) =
          Inr (Some (Ident \<lparr> NamePos = 48, Name = ''imports'' \<rparr>))"
    by (simp add: example_Package_def fieldMatches_def)
  moreover from positional_needs_field_count [OF t2 m2 k2 u2, of ?q False "[example_ast]" "[]"]
  have "snd (scanPackages ?q False ([example_ast] @ example_short # [])) =
        snd (scanPackages ?q False ([example_ast] @ []))"
    by simp
  ultimately show ?thesis using t1 t2 by (simp add: example_literal_def)
qed

section \<open>The sorter\<close>

lemma Less_iff:
  "Less fset a b \<longleftrightarrow>
     Filename (fset (Pos_n a)) < Filename (fset (Pos_n b)) \<or>
     (Filename (fset (Pos_n a)) = Filename (fset (Pos_n b)) \<and>
      Offset (fset (Pos_n a)) < Offset (fset (Pos_n b)))"
  by (auto simp: Less_def Let_def)

lemma Less_sort_key: "Less fset a b \<longleftrightarrow> sort_key fset a < sort_key fset b"
  by (auto simp: Less_iff sort_key_def less_prod_def)

lemma sorted_wrt_Less:
  "sorted_wrt (\<lambda>a b. \<not> Less fset b a) ns \<longleftrightarrow> sorted (map (sort_key fset) ns)"
  by (simp add: sorted_wrt_map Less_sort_key not_less)

lemma insert_node_mset: "mset (insert_node fset n ns) = add_mset n (mset ns)"
  by (induction ns) simp_all

lemma insert_node_set: "set (insert_node fset n ns) = insert n (set ns)"
  by (induction ns) auto

lemma insert_node_sorted:
  "sorted (map (sort_key fset) ns) \<Longrightarrow> sorted (map (sort_key fset) (insert_node fset n ns))"
  by (induction ns) (auto simp: insert_node_set Less_sort_key)

lemma insertion_sort_result: "Sort_result fset nodes (insertion_sort fset nodes)"
proof -
  have "mset (insertion_sort fset nodes) = mset nodes"
    by (induction nodes) (simp_all add: insert_node_mset)
  moreover have "sorted (map (sort_key fset) (insertion_sort fset nodes))"
    by (induction nodes) (simp_all add: insert_node_sorted)
  ultimately show ?thesis by (simp add: Sort_result_def sorted_wrt_Less)
qed

text \<open>
  C6. In the sorted sequence a node whose file name is smaller stands before a node
  whose file name is greater, and within one file a node with a smaller offset stands
  before one with a greater offset; going from left to right, file names never
  decrease and, within one file, offsets never decrease. Any two nodes are ordered
  by \<open>Less\<close> one way or the other, or agree in file name and offset.
\<close>

theorem Sort_result_order:
  assumes "Sort_result fset nodes out" and "i < length out" and "j < length out"
  shows "(Filename (fset (Pos_n (out ! i))) < Filename (fset (Pos_n (out ! j))) \<longrightarrow> i < j) \<and>
         (Filename (fset (Pos_n (out ! i))) = Filename (fset (Pos_n (out ! j))) \<and>
          Offset (fset (Pos_n (out ! i))) < Offset (fset (Pos_n (out ! j))) \<longrightarrow> i < j) \<and>
         (i < j \<longrightarrow>
            Filename (fset (Pos_n (out ! i))) \<le> Filename (fset (Pos_n (out ! j))) \<and>
            (Filename (fset (Pos_n (out ! i))) = Filename (fset (Pos_n (out ! j))) \<longrightarrow>
             Offset (fset (Pos_n (out ! i))) \<le> Offset (fset (Pos_n (out ! j))))) \<and>
         (Less fset (out ! i) (out ! j) \<or> Less fset (out ! j) (out ! i) \<or>
          (Filename (fset (Pos_n (out ! i))) = Filename (fset (Pos_n (out ! j))) \<and>
           Offset (fset (Pos_n (out ! i))) = Offset (fset (Pos_n (out ! j)))))"
proof -
  from assms(1) have s: "sorted_wrt (\<lambda>a b. \<not> Less fset b a) out"
    by (simp add: Sort_result_def)
  have before: "\<not> Less fset (out ! l) (out ! k)" if "k < l" "l < length out" for k l
    using s that by (simp add: sorted_wrt_iff_nth_less)
  have forward: "i < j" if "Less fset (out ! i) (out ! j)"
  proof (rule ccontr)
    assume "\<not> i < j"
    then have "j < i \<or> j = i" by auto
    then show False
    proof
      assume "j < i"
      from before [OF this assms(2)] that show False by simp
    next
      assume "j = i"
      with that show False by (simp add: Less_iff)
    qed
  qed
  have backward: "Filename (fset (Pos_n (out ! i))) \<le> Filename (fset (Pos_n (out ! j))) \<and>
            (Filename (fset (Pos_n (out ! i))) = Filename (fset (Pos_n (out ! j))) \<longrightarrow>
             Offset (fset (Pos_n (out ! i))) \<le> Offset (fset (Pos_n (out ! j))))" if "i < j"
    using before [OF that assms(3)] by (auto simp: Less_iff not_less)
  have total: "Less fset (out ! i) (out ! j) \<or> Less fset (out ! j) (out ! i) \<or>
          (Filename (fset (Pos_n (out ! i))) = Filename (fset (Pos_n (out ! j))) \<and>
           Offset (fset (Pos_n (out ! i))) = Offset (fset (Pos_n (out ! j))))"
    by (auto simp: Less_iff)
  have first: "Filename (fset (Pos_n (out ! i))) < Filename (fset (Pos_n (out ! j))) \<longrightarrow> i < j"
    using forward by (simp add: Less_iff)
  have second: "Filename (fset (Pos_n (out ! i))) = Filename (fset (Pos_n (out ! j))) \<and>
          Offset (fset (Pos_n (out ! i))) < Offset (fset (Pos_n (out ! j))) \<longrightarrow> i < j"
    using forward by (simp add: Less_iff)
  from first second backward total show ?thesis by blast
qed

lemma example_sorted:
  "Sort_result example_fset
     [Ident \<lparr> NamePos = 230, Name = ''c'' \<rparr>, Ident \<lparr> NamePos = 204, Name = ''c'' \<rparr>]
     [Ident \<lparr> NamePos = 204, Name = ''c'' \<rparr>, Ident \<lparr> NamePos = 230, Name = ''c'' \<rparr>]"
  by (simp add: Sort_result_def Less_def example_fset_def)

theorem Sort_result_order_witness:
  "Sort_result example_fset
     [Ident \<lparr> NamePos = 230, Name = ''c'' \<rparr>, Ident \<lparr> NamePos = 204, Name = ''c'' \<rparr>]
     [Ident \<lparr> NamePos = 204, Name = ''c'' \<rparr>, Ident \<lparr> NamePos = 230, Name = ''c'' \<rparr>]
   \<and> Filename (example_fset 204) \<le> Filename (example_fset 230)
   \<and> Offset (example_fset 204) \<le> Offset (example_fset 230)"
proof -
  let ?out = "[Ident \<lparr> NamePos = 204, Name = ''c'' \<rparr>, Ident \<lparr> NamePos = 230, Name = ''c'' \<rparr>]"
  have i: "0 < length ?out" and j: "1 < length ?out" by simp_all
  have same: "Filename (example_fset 204) = Filename (example_fset 230)"
    by (simp add: example_fset_def)
  from Sort_result_order [OF example_sorted i j] same
  show ?thesis using example_sorted by simp
qed

section \<open>The grouping loop\<close>

lemma group_step_None:
  "group_step fset (results, None) n =
     (results, Some \<lparr> filename = Filename (fset (Pos_n n)), line = Line (fset (Pos_n n)),
                      highlights = [span fset n] \<rparr>)"
  by (simp add: group_step_def Let_def)

lemma group_step_Some:
  "group_step fset (results, Some cur) n =
     (if Filename (fset (Pos_n n)) = filename cur \<and> Line (fset (Pos_n n)) = line cur
      then (results, Some (cur \<lparr> highlights := highlights cur @ [span fset n] \<rparr>))
      else (results @ [cur],
            Some \<lparr> filename = Filename (fset (Pos_n n)), line = Line (fset (Pos_n n)),
                   highlights = [span fset n] \<rparr>))"
  by (simp add: group_step_def Let_def)

lemma foldl_group_step_last:
  assumes "ns \<noteq> []"
  shows "\<exists>results cur. foldl (group_step fset) ([], None) ns = (results, Some cur) \<and>
           filename cur = Filename (fset (Pos_n (last ns))) \<and>
           line cur = Line (fset (Pos_n (last ns)))"
  using assms
proof (induction ns rule: rev_induct)
  case Nil
  then show ?case by simp
next
  case (snoc n ns)
  obtain results c where st: "foldl (group_step fset) ([], None) ns = (results, c)"
    by (cases "foldl (group_step fset) ([], None) ns")
  show ?case
    by (cases c) (simp_all add: st group_step_None group_step_Some)
qed

lemma group_snoc_new:
  assumes "ns \<noteq> []"
    and "Filename (fset (Pos_n n)) \<noteq> Filename (fset (Pos_n (last ns))) \<or>
         Line (fset (Pos_n n)) \<noteq> Line (fset (Pos_n (last ns)))"
  shows "group fset (ns @ [n]) = group fset ns @
    [\<lparr> filename = Filename (fset (Pos_n n)), line = Line (fset (Pos_n n)),
       highlights = [span fset n] \<rparr>]"
proof -
  from foldl_group_step_last [OF assms(1), of fset] obtain results cur where
    st: "foldl (group_step fset) ([], None) ns = (results, Some cur)"
    and cur: "filename cur = Filename (fset (Pos_n (last ns)))"
      "line cur = Line (fset (Pos_n (last ns)))"
    by blast
  from assms(2) cur have "\<not> (Filename (fset (Pos_n n)) = filename cur \<and> Line (fset (Pos_n n)) = line cur)"
    by auto
  then show ?thesis
    by (simp add: group_def st group_step_Some results_of_def)
qed

lemma group_step_shown:
  assumes "shown fset a = shown fset b"
  shows "group_step fset st a = group_step fset st b"
proof -
  from assms have eqs: "Filename (fset (Pos_n a)) = Filename (fset (Pos_n b))"
      "Line (fset (Pos_n a)) = Line (fset (Pos_n b))"
      "Column (fset (Pos_n a)) = Column (fset (Pos_n b))"
      "End_n a - Pos_n a = End_n b - Pos_n b"
    by (simp_all add: shown_def)
  then have sp: "span fset a = span fset b"
    by (simp add: span_def Let_def)
  obtain results c where st: "st = (results, c)" by (cases st)
  show ?thesis
  proof (cases c)
    case None
    then show ?thesis by (simp add: group_step_def Let_def st sp eqs(1,2))
  next
    case (Some cur)
    then show ?thesis by (simp add: group_step_def Let_def st sp eqs(1,2))
  qed
qed

lemma foldl_group_step_shown:
  "map (shown fset) xs = map (shown fset) ys \<Longrightarrow>
   foldl (group_step fset) st xs = foldl (group_step fset) st ys"
proof (induction xs arbitrary: ys st)
  case Nil
  then show ?case by simp
next
  case (Cons x xs)
  then obtain y ys' where ys: "ys = y # ys'" by (cases ys) auto
  with Cons.prems have xy: "shown fset x = shown fset y"
    and rest: "map (shown fset) xs = map (shown fset) ys'"
    by simp_all
  have "foldl (group_step fset) st (x # xs) = foldl (group_step fset) (group_step fset st x) xs"
    by simp
  also have "\<dots> = foldl (group_step fset) (group_step fset st y) xs"
    using group_step_shown [OF xy] by simp
  also have "\<dots> = foldl (group_step fset) (group_step fset st y) ys'"
    using rest by (rule Cons.IH)
  finally show ?case by (simp add: ys)
qed

lemma group_shown:
  "map (shown fset) xs = map (shown fset) ys \<Longrightarrow> group fset xs = group fset ys"
  unfolding group_def by (rule arg_cong [where f = results_of]) (rule foldl_group_step_shown)

lemma group_Nil: "group fset [] = []"
  by (simp add: group_def results_of_def)

lemma group_snoc:
  "group fset (ns @ [n]) =
     (if ns \<noteq> [] \<and> line_key fset n = line_key fset (last ns)
      then butlast (group fset ns) @
           [last (group fset ns) \<lparr> highlights := highlights (last (group fset ns)) @ [span fset n] \<rparr>]
      else group fset ns @ [new_record fset n])"
proof (cases "ns = []")
  case True
  then show ?thesis
    by (simp add: group_def results_of_def group_step_None new_record_def)
next
  case False
  from foldl_group_step_last [OF False, of fset] obtain results cur where
    st: "foldl (group_step fset) ([], None) ns = (results, Some cur)"
    and cur: "filename cur = Filename (fset (Pos_n (last ns)))"
      "line cur = Line (fset (Pos_n (last ns)))"
    by blast
  have g: "group fset ns = results @ [cur]"
    by (simp add: group_def st results_of_def)
  show ?thesis
    using False cur
    by (simp add: g group_def st group_step_Some results_of_def line_key_def new_record_def)
qed

lemma group_snoc_same:
  assumes "ns \<noteq> []" and "line_key fset n = line_key fset (last ns)"
  shows "group fset (ns @ [n]) = butlast (group fset ns) @
           [last (group fset ns) \<lparr> highlights := highlights (last (group fset ns)) @ [span fset n] \<rparr>]"
  using assms by (subst group_snoc) simp

lemma group_snoc_other:
  assumes "ns = [] \<or> line_key fset n \<noteq> line_key fset (last ns)"
  shows "group fset (ns @ [n]) = group fset ns @ [new_record fset n]"
  using assms by (subst group_snoc) auto

lemma group_last_key:
  assumes "ns \<noteq> []"
  shows "group fset ns \<noteq> [] \<and> record_key (last (group fset ns)) = line_key fset (last ns)"
proof -
  from foldl_group_step_last [OF assms, of fset] obtain results cur where
    st: "foldl (group_step fset) ([], None) ns = (results, Some cur)"
    and cur: "filename cur = Filename (fset (Pos_n (last ns)))"
      "line cur = Line (fset (Pos_n (last ns)))"
    by blast
  then show ?thesis
    by (simp add: group_def results_of_def record_key_def line_key_def)
qed

lemma sorted_le_last:
  assumes "sorted (map f xs)" and "x \<in> set xs"
  shows "f x \<le> f (last xs)"
proof -
  from assms(2) have ne: "xs \<noteq> []" by auto
  then have xs: "xs = butlast xs @ [last xs]" by simp
  from assms(1) have "sorted (map f (butlast xs) @ [f (last xs)])"
    by (subst (asm) xs) simp
  then have "\<forall>y \<in> set (butlast xs). f y \<le> f (last xs)"
    by (simp add: sorted_append)
  moreover from assms(2) have "x \<in> set (butlast xs) \<or> x = last xs"
    by (subst (asm) xs) auto
  ultimately show ?thesis by auto
qed

lemma strict_sorted_lt_last:
  assumes "sorted_wrt (<) (map f rs)" and "r \<in> set (butlast rs)"
  shows "f r < f (last rs)"
proof -
  from assms(2) have ne: "rs \<noteq> []" by auto
  then have rs: "rs = butlast rs @ [last rs]" by simp
  from assms(1) have "sorted_wrt (<) (map f (butlast rs) @ [f (last rs)])"
    by (subst (asm) rs) simp
  then have "\<forall>y \<in> set (butlast rs). f y < f (last rs)"
    by (simp add: sorted_wrt_append)
  with assms(2) show ?thesis by blast
qed

lemma group_sorted_keys:
  assumes "sorted (map (line_key fset) ns)"
  shows "sorted_wrt (<) (map record_key (group fset ns)) \<and>
         (\<forall>r \<in> set (group fset ns).
            highlights r = map (span fset) (filter (\<lambda>n. line_key fset n = record_key r) ns)) \<and>
         line_key fset ` set ns \<subseteq> record_key ` set (group fset ns)"
  using assms
proof (induction ns rule: rev_induct)
  case Nil
  then show ?case by (simp add: group_Nil)
next
  case (snoc n ns)
  let ?rs = "group fset ns"
  let ?k = "line_key fset n"
  from snoc.prems have srt: "sorted (map (line_key fset) ns)"
    and above: "\<forall>x \<in> set ns. line_key fset x \<le> ?k"
    by (simp_all add: sorted_append)
  from snoc.IH [OF srt] have
    ih1: "sorted_wrt (<) (map record_key ?rs)" and
    ih2: "\<forall>r \<in> set ?rs. highlights r =
            map (span fset) (filter (\<lambda>n. line_key fset n = record_key r) ns)" and
    ih3: "line_key fset ` set ns \<subseteq> record_key ` set ?rs"
    by blast+
  show ?case
  proof (cases "ns \<noteq> [] \<and> ?k = line_key fset (last ns)")
    case True
    then have ne: "ns \<noteq> []" and same: "?k = line_key fset (last ns)" by blast+
    from group_last_key [OF ne, of fset] have rne: "?rs \<noteq> []"
      and lastk: "record_key (last ?rs) = ?k" using same by simp_all
    let ?c = "last ?rs"
    let ?c' = "?c \<lparr> highlights := highlights ?c @ [span fset n] \<rparr>"
    have g: "group fset (ns @ [n]) = butlast ?rs @ [?c']"
      using ne same by (rule group_snoc_same)
    have kc: "record_key ?c' = record_key ?c" by (simp add: record_key_def)
    have rs: "?rs = butlast ?rs @ [?c]" using rne by simp
    have keys: "map record_key (butlast ?rs @ [?c']) = map record_key ?rs"
    proof -
      have "map record_key (butlast ?rs @ [?c']) = map record_key (butlast ?rs @ [?c])"
        by (simp add: kc)
      then show ?thesis using rs by simp
    qed
    have c1: "sorted_wrt (<) (map record_key (group fset (ns @ [n])))"
      unfolding g keys by (rule ih1)
    have c2: "\<forall>r \<in> set (group fset (ns @ [n])).
            highlights r = map (span fset) (filter (\<lambda>m. line_key fset m = record_key r) (ns @ [n]))"
    proof
      fix r assume "r \<in> set (group fset (ns @ [n]))"
      then have "r \<in> set (butlast ?rs) \<or> r = ?c'" by (auto simp: g)
      then show "highlights r = map (span fset) (filter (\<lambda>m. line_key fset m = record_key r) (ns @ [n]))"
      proof
        assume r: "r \<in> set (butlast ?rs)"
        then have "record_key r < record_key ?c"
          using ih1 by (rule strict_sorted_lt_last [rotated])
        then have "?k \<noteq> record_key r" using lastk by simp
        moreover from r have "r \<in> set ?rs" by (rule in_set_butlastD)
        ultimately show ?thesis using ih2 by simp
      next
        assume r: "r = ?c'"
        have "?c \<in> set ?rs" using rne by simp
        with ih2 have "highlights ?c =
            map (span fset) (filter (\<lambda>n. line_key fset n = record_key ?c) ns)" by blast
        then show ?thesis
          unfolding r kc using lastk by simp
      qed
    qed
    have c3: "line_key fset ` set (ns @ [n]) \<subseteq> record_key ` set (group fset (ns @ [n]))"
    proof -
      have "record_key ` set (group fset (ns @ [n])) = set (map record_key (butlast ?rs @ [?c']))"
        unfolding g by simp
      also have "\<dots> = record_key ` set ?rs" unfolding keys by simp
      finally have eq: "record_key ` set (group fset (ns @ [n])) = record_key ` set ?rs" .
      have "?k \<in> record_key ` set ?rs"
        using lastk rne by (metis image_eqI last_in_set)
      with ih3 show ?thesis unfolding eq by auto
    qed
    from c1 c2 c3 show ?thesis by blast
  next
    case False
    then have g: "group fset (ns @ [n]) = ?rs @ [new_record fset n]"
      by (intro group_snoc_other) blast
    have kn: "record_key (new_record fset n) = ?k"
      by (simp add: record_key_def new_record_def line_key_def)
    have below: "line_key fset x < ?k" if "x \<in> set ns" for x
    proof -
      from that have ne: "ns \<noteq> []" by auto
      with False have "?k \<noteq> line_key fset (last ns)" by simp
      moreover have "line_key fset (last ns) \<le> ?k" using above ne by simp
      moreover have "line_key fset x \<le> line_key fset (last ns)"
        using srt that by (rule sorted_le_last)
      ultimately show ?thesis by simp
    qed
    have rbelow: "record_key r < ?k" if "r \<in> set ?rs" for r
    proof (cases "ns = []")
      case True
      with that show ?thesis by (simp add: group_Nil)
    next
      case ne: False
      from group_last_key [OF ne, of fset] have rne: "?rs \<noteq> []"
        and lastk: "record_key (last ?rs) = line_key fset (last ns)" by simp_all
      have "line_key fset (last ns) < ?k" using below ne by simp
      moreover have "record_key r \<le> record_key (last ?rs)"
      proof (cases "r \<in> set (butlast ?rs)")
        case True
        then have "record_key r < record_key (last ?rs)"
          using ih1 by (rule strict_sorted_lt_last [rotated])
        then show ?thesis by simp
      next
        case False
        with that rne have "r = last ?rs"
          by (metis append_butlast_last_id rotate1.simps(2) set_ConsD set_rotate1)
        then show ?thesis by simp
      qed
      ultimately show ?thesis using lastk by simp
    qed
    have c1: "sorted_wrt (<) (map record_key (group fset (ns @ [n])))"
      unfolding g using ih1 rbelow by (simp add: sorted_wrt_append kn)
    have c2: "\<forall>r \<in> set (group fset (ns @ [n])).
            highlights r = map (span fset) (filter (\<lambda>m. line_key fset m = record_key r) (ns @ [n]))"
    proof
      fix r assume "r \<in> set (group fset (ns @ [n]))"
      then have "r \<in> set ?rs \<or> r = new_record fset n" by (auto simp: g)
      then show "highlights r = map (span fset) (filter (\<lambda>m. line_key fset m = record_key r) (ns @ [n]))"
      proof
        assume r: "r \<in> set ?rs"
        then have "?k \<noteq> record_key r" using rbelow by fastforce
        with r ih2 show ?thesis by simp
      next
        assume r: "r = new_record fset n"
        have "filter (\<lambda>m. line_key fset m = ?k) ns = []"
          using below by (fastforce simp: filter_empty_conv)
        then show ?thesis
          unfolding r kn by (simp add: new_record_def)
      qed
    qed
    have c3: "line_key fset ` set (ns @ [n]) \<subseteq> record_key ` set (group fset (ns @ [n]))"
      unfolding g using ih3 kn by auto
    from c1 c2 c3 show ?thesis by blast
  qed
qed

lemma Sort_result_line_keys:
  assumes srt: "Sort_result fset arrived ordered"
    and mono: "\<forall>x \<in> set arrived. \<forall>y \<in> set arrived.
        Filename (fset (Pos_n x)) = Filename (fset (Pos_n y)) \<and>
        Offset (fset (Pos_n x)) \<le> Offset (fset (Pos_n y)) \<longrightarrow>
        Line (fset (Pos_n x)) \<le> Line (fset (Pos_n y))"
  shows "sorted (map (line_key fset) ordered)"
proof -
  from srt have st: "set ordered = set arrived"
    unfolding Sort_result_def by (blast dest: mset_eq_setD)
  from srt have "sorted (map (sort_key fset) ordered)"
    by (simp add: Sort_result_def sorted_wrt_Less)
  then have "sorted_wrt (\<lambda>x y. sort_key fset x \<le> sort_key fset y) ordered"
    by (simp add: sorted_map)
  moreover have "line_key fset x \<le> line_key fset y"
    if "x \<in> set ordered" "y \<in> set ordered" "sort_key fset x \<le> sort_key fset y" for x y
  proof -
    from that(3) have "Filename (fset (Pos_n x)) < Filename (fset (Pos_n y)) \<or>
        (Filename (fset (Pos_n x)) = Filename (fset (Pos_n y)) \<and>
         Offset (fset (Pos_n x)) \<le> Offset (fset (Pos_n y)))"
      by (auto simp: sort_key_def less_eq_prod_def)
    then show ?thesis
    proof
      assume "Filename (fset (Pos_n x)) < Filename (fset (Pos_n y))"
      then show ?thesis by (simp add: line_key_def less_eq_prod_def)
    next
      assume h: "Filename (fset (Pos_n x)) = Filename (fset (Pos_n y)) \<and>
         Offset (fset (Pos_n x)) \<le> Offset (fset (Pos_n y))"
      with mono that(1,2) st have "Line (fset (Pos_n x)) \<le> Line (fset (Pos_n y))"
        by blast
      with h show ?thesis by (simp add: line_key_def less_eq_prod_def)
    qed
  qed
  ultimately have "sorted_wrt (\<lambda>x y. line_key fset x \<le> line_key fset y) ordered"
    by (rule sorted_wrt_mono_rel [rotated])
  then show ?thesis by (simp add: sorted_map)
qed

lemma sorted_Less_split:
  assumes sorted: "sorted_wrt (\<lambda>x y. \<not> Less fset y x) ordered"
    and a: "a \<in> set ordered" and b: "b \<in> set ordered" and less: "Less fset a b"
  shows "\<exists>xs ys zs. ordered = xs @ a # ys @ b # zs"
proof -
  from less have ne: "a \<noteq> b" by (auto simp: Less_iff)
  from b obtain us zs where split: "ordered = us @ b # zs" and first: "b \<notin> set us"
    by (meson split_list_first)
  from sorted have "sorted_wrt (\<lambda>x y. \<not> Less fset y x) ((us @ [b]) @ zs)"
    by (simp add: split)
  then have "\<forall>y \<in> set zs. \<not> Less fset y b"
    unfolding sorted_wrt_append by simp
  with less have "a \<notin> set zs" by blast
  with a ne have "a \<in> set us" by (simp add: split)
  then obtain xs ys where "us = xs @ a # ys" by (meson split_list)
  with split have "ordered = xs @ a # ys @ b # zs" by simp
  then show ?thesis by blast
qed

lemma same_line_left_first:
  assumes srt: "Sort_result fset arrived ordered"
    and mono: "\<forall>x \<in> set arrived. \<forall>y \<in> set arrived.
        Filename (fset (Pos_n x)) = Filename (fset (Pos_n y)) \<and>
        Offset (fset (Pos_n x)) \<le> Offset (fset (Pos_n y)) \<longrightarrow>
        Line (fset (Pos_n x)) \<le> Line (fset (Pos_n y))"
    and a: "a \<in> set arrived" and b: "b \<in> set arrived"
    and key: "line_key fset a = line_key fset b"
    and cols: "Column (fset (Pos_n b)) - Column (fset (Pos_n a)) =
               Offset (fset (Pos_n b)) - Offset (fset (Pos_n a))"
    and len: "Pos_n a < End_n a"
    and left: "end' (span fset a) \<le> start (span fset b)"
  shows "\<exists>rs1 r rs2 hs1 hs2 hs3.
           group fset ordered = rs1 @ r # rs2 \<and>
           record_key r = line_key fset a \<and>
           (\<forall>r' \<in> set (rs1 @ rs2). record_key r' \<noteq> line_key fset a) \<and>
           highlights r = hs1 @ span fset a # hs2 @ span fset b # hs3"
proof -
  let ?k = "line_key fset a"
  let ?rs = "group fset ordered"
  from srt have st: "set ordered = set arrived"
    unfolding Sort_result_def by (blast dest: mset_eq_setD)
  from srt have sorted: "sorted_wrt (\<lambda>x y. \<not> Less fset y x) ordered"
    by (simp add: Sort_result_def)
  have "sorted (map (line_key fset) ordered)"
    using srt mono by (rule Sort_result_line_keys)
  from group_sorted_keys [OF this] have
    g1: "sorted_wrt (<) (map record_key ?rs)" and
    g2: "\<forall>r \<in> set ?rs. highlights r =
            map (span fset) (filter (\<lambda>n. line_key fset n = record_key r) ordered)" and
    g3: "line_key fset ` set ordered \<subseteq> record_key ` set ?rs"
    by blast+
  from a st g3 obtain r where r: "r \<in> set ?rs" and rk: "record_key r = ?k"
    by (metis (no_types, lifting) image_iff subsetD)
  from r obtain rs1 rs2 where split: "?rs = rs1 @ r # rs2" by (meson split_list)
  from g1 have "distinct (map record_key ?rs)"
    by (simp add: strict_sorted_iff)
  then have others: "\<forall>r' \<in> set (rs1 @ rs2). record_key r' \<noteq> ?k"
    unfolding split using rk by (auto simp: image_iff)
  from left len have "Column (fset (Pos_n a)) < Column (fset (Pos_n b))"
    by (simp add: span_def Let_def)
  with cols have "Offset (fset (Pos_n a)) < Offset (fset (Pos_n b))" by simp
  moreover from key have "Filename (fset (Pos_n a)) = Filename (fset (Pos_n b))"
    by (simp add: line_key_def)
  ultimately have "Less fset a b" by (simp add: Less_iff)
  with sorted a b st obtain xs ys zs where ord: "ordered = xs @ a # ys @ b # zs"
    using sorted_Less_split [of fset ordered a b] by blast
  from g2 r rk have "highlights r = map (span fset) (filter (\<lambda>n. line_key fset n = ?k) ordered)"
    by simp
  also have "\<dots> = map (span fset) (filter (\<lambda>n. line_key fset n = ?k) xs) @ span fset a #
      map (span fset) (filter (\<lambda>n. line_key fset n = ?k) ys) @ span fset b #
      map (span fset) (filter (\<lambda>n. line_key fset n = ?k) zs)"
    unfolding ord using key by simp
  finally have "highlights r = map (span fset) (filter (\<lambda>n. line_key fset n = ?k) xs) @ span fset a #
      map (span fset) (filter (\<lambda>n. line_key fset n = ?k) ys) @ span fset b #
      map (span fset) (filter (\<lambda>n. line_key fset n = ?k) zs)" .
  with split rk others show ?thesis by blast
qed

text \<open>
  C7, as the code has it. Take any sorted sequence of nodes in which, within one
  file, lines do not decrease as offsets grow, and in it two nodes of the same file and
  line, not empty, with disjoint column ranges, whose columns differ as their offsets do
  (both counted from the start of their line). Then the grouping loop produces exactly
  one display record of that file and line, wherever in the sequence the two nodes
  stand and whatever records come before; it holds both spans, the left one before the
  right one, which starts where the left one ends or later. And a node whose file or
  line differs from that of the node before it starts a new display record, after the
  records so far.
\<close>

theorem group_same_line:
  "(Sort_result fset arrived ordered \<and>
    (\<forall>x \<in> set arrived. \<forall>y \<in> set arrived.
        Filename (fset (Pos_n x)) = Filename (fset (Pos_n y)) \<and>
        Offset (fset (Pos_n x)) \<le> Offset (fset (Pos_n y)) \<longrightarrow>
        Line (fset (Pos_n x)) \<le> Line (fset (Pos_n y))) \<and>
    a \<in> set arrived \<and> b \<in> set arrived \<and>
    Filename (fset (Pos_n a)) = Filename (fset (Pos_n b)) \<and>
    Line (fset (Pos_n a)) = Line (fset (Pos_n b)) \<and>
    Column (fset (Pos_n b)) - Column (fset (Pos_n a)) =
      Offset (fset (Pos_n b)) - Offset (fset (Pos_n a)) \<and>
    Pos_n a < End_n a \<and> Pos_n b < End_n b \<and>
    (end' (span fset a) \<le> start (span fset b) \<or> end' (span fset b) \<le> start (span fset a))
    \<longrightarrow> (\<exists>u v rs1 r rs2 hs1 hs2 hs3.
          (u = a \<and> v = b \<or> u = b \<and> v = a) \<and>
          group fset ordered = rs1 @ r # rs2 \<and>
          filename r = Filename (fset (Pos_n a)) \<and> line r = Line (fset (Pos_n a)) \<and>
          (\<forall>r' \<in> set (rs1 @ rs2).
             \<not> (filename r' = Filename (fset (Pos_n a)) \<and> line r' = Line (fset (Pos_n a)))) \<and>
          highlights r = hs1 @ span fset u # hs2 @ span fset v # hs3 \<and>
          end' (span fset u) \<le> start (span fset v)))
   \<and> (ns \<noteq> [] \<and>
       (Filename (fset (Pos_n n)) \<noteq> Filename (fset (Pos_n (last ns))) \<or>
        Line (fset (Pos_n n)) \<noteq> Line (fset (Pos_n (last ns))))
      \<longrightarrow> group fset (ns @ [n]) = group fset ns @
            [\<lparr> filename = Filename (fset (Pos_n n)), line = Line (fset (Pos_n n)),
               highlights = [span fset n] \<rparr>])"
proof (intro conjI impI)
  assume h: "Sort_result fset arrived ordered \<and>
    (\<forall>x \<in> set arrived. \<forall>y \<in> set arrived.
        Filename (fset (Pos_n x)) = Filename (fset (Pos_n y)) \<and>
        Offset (fset (Pos_n x)) \<le> Offset (fset (Pos_n y)) \<longrightarrow>
        Line (fset (Pos_n x)) \<le> Line (fset (Pos_n y))) \<and>
    a \<in> set arrived \<and> b \<in> set arrived \<and>
    Filename (fset (Pos_n a)) = Filename (fset (Pos_n b)) \<and>
    Line (fset (Pos_n a)) = Line (fset (Pos_n b)) \<and>
    Column (fset (Pos_n b)) - Column (fset (Pos_n a)) =
      Offset (fset (Pos_n b)) - Offset (fset (Pos_n a)) \<and>
    Pos_n a < End_n a \<and> Pos_n b < End_n b \<and>
    (end' (span fset a) \<le> start (span fset b) \<or> end' (span fset b) \<le> start (span fset a))"
  then have srt: "Sort_result fset arrived ordered"
    and mono: "\<forall>x \<in> set arrived. \<forall>y \<in> set arrived.
        Filename (fset (Pos_n x)) = Filename (fset (Pos_n y)) \<and>
        Offset (fset (Pos_n x)) \<le> Offset (fset (Pos_n y)) \<longrightarrow>
        Line (fset (Pos_n x)) \<le> Line (fset (Pos_n y))"
    and a: "a \<in> set arrived" and b: "b \<in> set arrived"
    and fileq: "Filename (fset (Pos_n a)) = Filename (fset (Pos_n b))"
    and lineq: "Line (fset (Pos_n a)) = Line (fset (Pos_n b))"
    and cols: "Column (fset (Pos_n b)) - Column (fset (Pos_n a)) =
      Offset (fset (Pos_n b)) - Offset (fset (Pos_n a))"
    and len: "Pos_n a < End_n a" "Pos_n b < End_n b"
    and disj: "end' (span fset a) \<le> start (span fset b) \<or> end' (span fset b) \<le> start (span fset a)"
    by blast+
  from fileq lineq have key: "line_key fset a = line_key fset b"
    by (simp add: line_key_def)
  from cols have cols': "Column (fset (Pos_n a)) - Column (fset (Pos_n b)) =
      Offset (fset (Pos_n a)) - Offset (fset (Pos_n b))" by simp
  have unfold_key: "record_key r = line_key fset a \<longleftrightarrow>
      filename r = Filename (fset (Pos_n a)) \<and> line r = Line (fset (Pos_n a))" for r
    by (simp add: record_key_def line_key_def)
  from disj show "\<exists>u v rs1 r rs2 hs1 hs2 hs3.
          (u = a \<and> v = b \<or> u = b \<and> v = a) \<and>
          group fset ordered = rs1 @ r # rs2 \<and>
          filename r = Filename (fset (Pos_n a)) \<and> line r = Line (fset (Pos_n a)) \<and>
          (\<forall>r' \<in> set (rs1 @ rs2).
             \<not> (filename r' = Filename (fset (Pos_n a)) \<and> line r' = Line (fset (Pos_n a)))) \<and>
          highlights r = hs1 @ span fset u # hs2 @ span fset v # hs3 \<and>
          end' (span fset u) \<le> start (span fset v)"
  proof
    assume left: "end' (span fset a) \<le> start (span fset b)"
    from same_line_left_first [OF srt mono a b key cols len(1) left]
    obtain rs1 r rs2 hs1 hs2 hs3 where
      "group fset ordered = rs1 @ r # rs2" "record_key r = line_key fset a"
      "\<forall>r' \<in> set (rs1 @ rs2). record_key r' \<noteq> line_key fset a"
      "highlights r = hs1 @ span fset a # hs2 @ span fset b # hs3"
      by blast
    with left show ?thesis unfolding unfold_key by blast
  next
    assume right: "end' (span fset b) \<le> start (span fset a)"
    from same_line_left_first [OF srt mono b a key [symmetric] cols' len(2) right]
    obtain rs1 r rs2 hs1 hs2 hs3 where
      "group fset ordered = rs1 @ r # rs2" "record_key r = line_key fset b"
      "\<forall>r' \<in> set (rs1 @ rs2). record_key r' \<noteq> line_key fset b"
      "highlights r = hs1 @ span fset b # hs2 @ span fset a # hs3"
      by blast
    with right show ?thesis unfolding key [symmetric] unfold_key by blast
  qed
next
  assume "ns \<noteq> [] \<and>
       (Filename (fset (Pos_n n)) \<noteq> Filename (fset (Pos_n (last ns))) \<or>
        Line (fset (Pos_n n)) \<noteq> Line (fset (Pos_n (last ns))))"
  then show "group fset (ns @ [n]) = group fset ns @
            [\<lparr> filename = Filename (fset (Pos_n n)), line = Line (fset (Pos_n n)),
               highlights = [span fset n] \<rparr>]"
    using group_snoc_new by blast
qed

lemma example_group:
  "group example_fset
     [Ident \<lparr> NamePos = 204, Name = ''c'' \<rparr>, Ident \<lparr> NamePos = 230, Name = ''c'' \<rparr>] =
   [\<lparr> filename = ''client.go'', line = 3,
      highlights = [\<lparr> start = 4, end' = 5 \<rparr>, \<lparr> start = 30, end' = 31 \<rparr>] \<rparr>]"
  by (simp add: group_def group_step_None group_step_Some results_of_def span_def example_fset_def)

theorem group_same_line_witness:
  "Sort_result example_fset
     [Ident \<lparr> NamePos = 230, Name = ''c'' \<rparr>, Ident \<lparr> NamePos = 150, Name = ''b'' \<rparr>,
      Ident \<lparr> NamePos = 204, Name = ''c'' \<rparr>]
     [Ident \<lparr> NamePos = 150, Name = ''b'' \<rparr>, Ident \<lparr> NamePos = 204, Name = ''c'' \<rparr>,
      Ident \<lparr> NamePos = 230, Name = ''c'' \<rparr>]
   \<and> group example_fset
       [Ident \<lparr> NamePos = 150, Name = ''b'' \<rparr>, Ident \<lparr> NamePos = 204, Name = ''c'' \<rparr>,
        Ident \<lparr> NamePos = 230, Name = ''c'' \<rparr>] =
       [\<lparr> filename = ''client.go'', line = 2, highlights = [\<lparr> start = 50, end' = 51 \<rparr>] \<rparr>,
        \<lparr> filename = ''client.go'', line = 3,
          highlights = [\<lparr> start = 4, end' = 5 \<rparr>, \<lparr> start = 30, end' = 31 \<rparr>] \<rparr>]
   \<and> (\<exists>u v rs1 r rs2 hs1 hs2 hs3.
        (u = Ident \<lparr> NamePos = 230, Name = ''c'' \<rparr> \<and> v = Ident \<lparr> NamePos = 204, Name = ''c'' \<rparr> \<or>
         u = Ident \<lparr> NamePos = 204, Name = ''c'' \<rparr> \<and> v = Ident \<lparr> NamePos = 230, Name = ''c'' \<rparr>) \<and>
        group example_fset
          [Ident \<lparr> NamePos = 150, Name = ''b'' \<rparr>, Ident \<lparr> NamePos = 204, Name = ''c'' \<rparr>,
           Ident \<lparr> NamePos = 230, Name = ''c'' \<rparr>] = rs1 @ r # rs2 \<and>
        filename r = ''client.go'' \<and> line r = 3 \<and>
        (\<forall>r' \<in> set (rs1 @ rs2). \<not> (filename r' = ''client.go'' \<and> line r' = 3)) \<and>
        highlights r = hs1 @ span example_fset u # hs2 @ span example_fset v # hs3 \<and>
        end' (span example_fset u) \<le> start (span example_fset v))
   \<and> group example_fset
         ([Ident \<lparr> NamePos = 204, Name = ''c'' \<rparr>] @ [Ident \<lparr> NamePos = 310, Name = ''c'' \<rparr>]) =
       group example_fset [Ident \<lparr> NamePos = 204, Name = ''c'' \<rparr>] @
         [\<lparr> filename = ''client.go'', line = 4, highlights = [\<lparr> start = 10, end' = 11 \<rparr>] \<rparr>]"
proof -
  let ?a = "Ident \<lparr> NamePos = 230, Name = ''c'' \<rparr>"
  let ?b = "Ident \<lparr> NamePos = 204, Name = ''c'' \<rparr>"
  let ?e = "Ident \<lparr> NamePos = 150, Name = ''b'' \<rparr>"
  let ?n = "Ident \<lparr> NamePos = 310, Name = ''c'' \<rparr>"
  let ?arrived = "[?a, ?e, ?b]"
  let ?ordered = "[?e, ?b, ?a]"
  have p: "example_fset 204 = \<lparr> Filename = ''client.go'', Offset = 204, Line = 3, Column = 5 \<rparr>"
      "example_fset 230 = \<lparr> Filename = ''client.go'', Offset = 230, Line = 3, Column = 31 \<rparr>"
      "example_fset 150 = \<lparr> Filename = ''client.go'', Offset = 150, Line = 2, Column = 51 \<rparr>"
      "example_fset 310 = \<lparr> Filename = ''client.go'', Offset = 310, Line = 4, Column = 11 \<rparr>"
    by (simp_all add: example_fset_def)
  have sp: "span example_fset ?a = \<lparr> start = 30, end' = 31 \<rparr>"
      "span example_fset ?b = \<lparr> start = 4, end' = 5 \<rparr>"
      "span example_fset ?e = \<lparr> start = 50, end' = 51 \<rparr>"
      "span example_fset ?n = \<lparr> start = 10, end' = 11 \<rparr>"
    by (simp_all add: span_def p)
  have srt: "Sort_result example_fset ?arrived ?ordered"
    by (simp add: Sort_result_def Less_def p)
  have mono: "\<forall>x \<in> set ?arrived. \<forall>y \<in> set ?arrived.
        Filename (example_fset (Pos_n x)) = Filename (example_fset (Pos_n y)) \<and>
        Offset (example_fset (Pos_n x)) \<le> Offset (example_fset (Pos_n y)) \<longrightarrow>
        Line (example_fset (Pos_n x)) \<le> Line (example_fset (Pos_n y))"
    by (simp add: p)
  have hyps: "?a \<in> set ?arrived" "?b \<in> set ?arrived"
      "Filename (example_fset (Pos_n ?a)) = Filename (example_fset (Pos_n ?b))"
      "Line (example_fset (Pos_n ?a)) = Line (example_fset (Pos_n ?b))"
      "Column (example_fset (Pos_n ?b)) - Column (example_fset (Pos_n ?a)) =
         Offset (example_fset (Pos_n ?b)) - Offset (example_fset (Pos_n ?a))"
      "Pos_n ?a < End_n ?a" "Pos_n ?b < End_n ?b"
      "end' (span example_fset ?a) \<le> start (span example_fset ?b) \<or>
       end' (span example_fset ?b) \<le> start (span example_fset ?a)"
    by (simp_all add: p sp)
  have new: "[?b] \<noteq> [] \<and>
       (Filename (example_fset (Pos_n ?n)) \<noteq> Filename (example_fset (Pos_n (last [?b]))) \<or>
        Line (example_fset (Pos_n ?n)) \<noteq> Line (example_fset (Pos_n (last [?b]))))"
    by (simp add: p)
  have pa: "Filename (example_fset (Pos_n ?a)) = ''client.go''" "Line (example_fset (Pos_n ?a)) = 3"
      "Filename (example_fset (Pos_n ?n)) = ''client.go''" "Line (example_fset (Pos_n ?n)) = 4"
    by (simp_all add: p)
  note inst = group_same_line [of example_fset ?arrived ?ordered ?a ?b "[?b]" ?n]
  from inst srt mono hyps have one: "\<exists>u v rs1 r rs2 hs1 hs2 hs3.
        (u = ?a \<and> v = ?b \<or> u = ?b \<and> v = ?a) \<and>
        group example_fset ?ordered = rs1 @ r # rs2 \<and>
        filename r = ''client.go'' \<and> line r = 3 \<and>
        (\<forall>r' \<in> set (rs1 @ rs2). \<not> (filename r' = ''client.go'' \<and> line r' = 3)) \<and>
        highlights r = hs1 @ span example_fset u # hs2 @ span example_fset v # hs3 \<and>
        end' (span example_fset u) \<le> start (span example_fset v)"
    unfolding pa by blast
  from inst new have two: "group example_fset ([?b] @ [?n]) = group example_fset [?b] @
         [\<lparr> filename = ''client.go'', line = 4, highlights = [\<lparr> start = 10, end' = 11 \<rparr>] \<rparr>]"
    unfolding pa sp by blast
  have g: "group example_fset ?ordered =
       [\<lparr> filename = ''client.go'', line = 2, highlights = [\<lparr> start = 50, end' = 51 \<rparr>] \<rparr>,
        \<lparr> filename = ''client.go'', line = 3,
          highlights = [\<lparr> start = 4, end' = 5 \<rparr>, \<lparr> start = 30, end' = 31 \<rparr>] \<rparr>]"
    by (simp add: group_def group_step_None group_step_Some results_of_def sp p)
  from srt g one two show ?thesis by blast
qed

text \<open>
  C7, as the specification has it, fails where columns do not follow offsets. Under
  the \<^verbatim>\<open>//line\<close> directives of \<open>skew_fset\<close> the tokens \<^verbatim>\<open>x\<close> at offset 129 and
  \<^verbatim>\<open>y\<close> at offset 202 are on the same line of the same file, with the disjoint column
  ranges 29-30 and 2-3. The only sorted arrangement has \<^verbatim>\<open>x\<close> first, and the one
  display record lists the right span before the left one.
\<close>

theorem right_span_first:
  "Filename (skew_fset 129) = Filename (skew_fset 202) \<and>
   Line (skew_fset 129) = Line (skew_fset 202) \<and>
   end' (span skew_fset (Ident \<lparr> NamePos = 202, Name = ''y'' \<rparr>))
     \<le> start (span skew_fset (Ident \<lparr> NamePos = 129, Name = ''x'' \<rparr>)) \<and>
   Sort_result skew_fset
     [Ident \<lparr> NamePos = 202, Name = ''y'' \<rparr>, Ident \<lparr> NamePos = 129, Name = ''x'' \<rparr>]
     [Ident \<lparr> NamePos = 129, Name = ''x'' \<rparr>, Ident \<lparr> NamePos = 202, Name = ''y'' \<rparr>] \<and>
   \<not> Sort_result skew_fset
     [Ident \<lparr> NamePos = 202, Name = ''y'' \<rparr>, Ident \<lparr> NamePos = 129, Name = ''x'' \<rparr>]
     [Ident \<lparr> NamePos = 202, Name = ''y'' \<rparr>, Ident \<lparr> NamePos = 129, Name = ''x'' \<rparr>] \<and>
   group skew_fset
     [Ident \<lparr> NamePos = 129, Name = ''x'' \<rparr>, Ident \<lparr> NamePos = 202, Name = ''y'' \<rparr>] =
     [\<lparr> filename = ''gen.go'', line = 5,
        highlights = [\<lparr> start = 29, end' = 30 \<rparr>, \<lparr> start = 2, end' = 3 \<rparr>] \<rparr>]"
  by (simp add: Sort_result_def Less_def skew_fset_def span_def
      group_def group_step_None group_step_Some results_of_def)

section \<open>The whole run\<close>

lemma Sort_result_keys:
  assumes "Sort_result fset nodes out"
  shows "map (sort_key fset) out = sort (map (sort_key fset) nodes)"
proof -
  from assms have "mset (map (sort_key fset) out) = mset (map (sort_key fset) nodes)"
    and "sorted (map (sort_key fset) out)"
    by (simp_all add: Sort_result_def sorted_wrt_Less)
  then have "sort (map (sort_key fset) nodes) = map (sort_key fset) out"
    by (rule properties_for_sort)
  then show ?thesis by simp
qed

lemma Sort_results_shown:
  assumes s1: "Sort_result fset nodes out1" and s2: "Sort_result fset nodes out2"
    and ties: "\<forall>a \<in> set nodes. \<forall>b \<in> set nodes.
        sort_key fset a = sort_key fset b \<longrightarrow> shown fset a = shown fset b"
  shows "map (shown fset) out1 = map (shown fset) out2"
proof (rule nth_equalityI)
  have keys: "map (sort_key fset) out1 = map (sort_key fset) out2"
    using s1 s2 by (simp add: Sort_result_keys)
  then have len: "length out1 = length out2"
    by (rule map_eq_imp_length_eq)
  then show "length (map (shown fset) out1) = length (map (shown fset) out2)" by simp
  fix i assume "i < length (map (shown fset) out1)"
  then have i: "i < length out1" "i < length out2" using len by simp_all
  from s1 have "set out1 = set nodes"
    unfolding Sort_result_def by (blast dest: mset_eq_setD)
  moreover from s2 have "set out2 = set nodes"
    unfolding Sort_result_def by (blast dest: mset_eq_setD)
  ultimately have mem: "out1 ! i \<in> set nodes" "out2 ! i \<in> set nodes"
    using i nth_mem by blast+
  have "map (sort_key fset) out1 ! i = map (sort_key fset) out2 ! i"
    using keys by simp
  then have "sort_key fset (out1 ! i) = sort_key fset (out2 ! i)"
    using i by simp
  with mem ties have "shown fset (out1 ! i) = shown fset (out2 ! i)"
    by blast
  with i show "map (shown fset) out1 ! i = map (shown fset) out2 ! i" by simp
qed

lemma Sort_result_mset:
  "mset arrived = mset sent \<Longrightarrow> Sort_result fset arrived out \<Longrightarrow> Sort_result fset sent out"
  by (simp add: Sort_result_def)

text \<open>Every run has an outcome: every sequence of nodes has a sorted arrangement.\<close>

lemma run_exists: "\<exists>out. run target fset quiet pkgs out"
proof (cases "parseTarget target")
  case (Inl e)
  then have "run target fset quiet pkgs (Inl e)" by (rule run.parse_panic)
  then show ?thesis ..
next
  case (Inr q)
  show ?thesis
  proof (cases "snd (scanPackages q quiet pkgs)")
    case (Inl e)
    with Inr have "run target fset quiet pkgs (Inl e)" by (rule run.scan_panic)
    then show ?thesis ..
  next
    case sent: (Inr sent)
    from Inr sent refl insertion_sort_result
    have "run target fset quiet pkgs (Inr (group fset (insertion_sort fset sent)))"
      by (rule run.completes)
    then show ?thesis ..
  qed
qed

text \<open>
  C5, as the code has it. Two runs on the same target and the same packages have the
  same outcome, whatever the order in which the nodes arrive and however \<^verbatim>\<open>sort.Sort\<close>
  arranges nodes that \<open>Less\<close> does not tell apart, provided that such nodes are shown
  alike: nodes sent with the same file name and offset have the same line, column and
  length (one token, possibly sent twice).
\<close>

theorem run_deterministic:
  assumes r1: "run target fset quiet pkgs out1" and r2: "run target fset quiet pkgs out2"
    and ties: "\<forall>q sent. parseTarget target = Inr q \<and> snd (scanPackages q quiet pkgs) = Inr sent \<longrightarrow>
        (\<forall>a \<in> set sent. \<forall>b \<in> set sent.
           Filename (fset (Pos_n a)) = Filename (fset (Pos_n b)) \<and>
           Offset (fset (Pos_n a)) = Offset (fset (Pos_n b)) \<longrightarrow>
           Line (fset (Pos_n a)) = Line (fset (Pos_n b)) \<and>
           Column (fset (Pos_n a)) = Column (fset (Pos_n b)) \<and>
           End_n a - Pos_n a = End_n b - Pos_n b)"
  shows "out1 = out2"
  using r1
proof (cases rule: run.cases)
  case (parse_panic e)
  from r2 show ?thesis
  proof (cases rule: run.cases)
    case (parse_panic e')
    with \<open>parseTarget target = Inl e\<close> \<open>out1 = Inl e\<close> show ?thesis by simp
  next
    case (scan_panic q e')
    with \<open>parseTarget target = Inl e\<close> show ?thesis by simp
  next
    case (completes q sent arrived ordered)
    with \<open>parseTarget target = Inl e\<close> show ?thesis by simp
  qed
next
  case s1: (scan_panic q e)
  from r2 show ?thesis
  proof (cases rule: run.cases)
    case (parse_panic e')
    with s1 show ?thesis by simp
  next
    case (scan_panic q' e')
    with s1 show ?thesis by simp
  next
    case (completes q' sent arrived ordered)
    with s1 show ?thesis by simp
  qed
next
  case c1: (completes q sent arrived1 ordered1)
  from r2 show ?thesis
  proof (cases rule: run.cases)
    case (parse_panic e')
    with c1 show ?thesis by simp
  next
    case (scan_panic q' e')
    with c1 show ?thesis by simp
  next
    case c2: (completes q' sent' arrived2 ordered2)
    from c1(2,3) c2(2,3) have same: "q' = q" "sent' = sent" by simp_all
    have s1: "Sort_result fset sent ordered1" using c1(4,5) by (rule Sort_result_mset)
    have s2: "Sort_result fset sent ordered2"
      using c2(4,5) unfolding same by (rule Sort_result_mset)
    from ties c1(2,3) have t: "\<forall>a \<in> set sent. \<forall>b \<in> set sent.
           Filename (fset (Pos_n a)) = Filename (fset (Pos_n b)) \<and>
           Offset (fset (Pos_n a)) = Offset (fset (Pos_n b)) \<longrightarrow>
           Line (fset (Pos_n a)) = Line (fset (Pos_n b)) \<and>
           Column (fset (Pos_n a)) = Column (fset (Pos_n b)) \<and>
           End_n a - Pos_n a = End_n b - Pos_n b"
      by blast
    have "\<forall>a \<in> set sent. \<forall>b \<in> set sent.
        sort_key fset a = sort_key fset b \<longrightarrow> shown fset a = shown fset b"
    proof (intro ballI impI)
      fix a b assume "a \<in> set sent" "b \<in> set sent" "sort_key fset a = sort_key fset b"
      with t show "shown fset a = shown fset b"
        unfolding sort_key_def shown_def by blast
    qed
    with s1 s2 have "map (shown fset) ordered1 = map (shown fset) ordered2"
      by (rule Sort_results_shown)
    then have "group fset ordered1 = group fset ordered2" by (rule group_shown)
    with c1(1) c2(1) show ?thesis by simp
  qed
qed

lemma example_run:
  "run ''net/http.Client'' example_fset False [example_broken, example_pkg]
     (Inr [\<lparr> filename = ''client.go'', line = 3,
             highlights = [\<lparr> start = 4, end' = 5 \<rparr>, \<lparr> start = 30, end' = 31 \<rparr>] \<rparr>])"
  using run.completes [OF example_query example_sent refl example_sorted]
  by (simp only: example_group)

theorem run_deterministic_witness:
  "run ''net/http.Client'' example_fset False [example_broken, example_pkg]
     (Inr [\<lparr> filename = ''client.go'', line = 3,
             highlights = [\<lparr> start = 4, end' = 5 \<rparr>, \<lparr> start = 30, end' = 31 \<rparr>] \<rparr>])
   \<and> {out. run ''net/http.Client'' example_fset False [example_broken, example_pkg] out} =
       {Inr [\<lparr> filename = ''client.go'', line = 3,
               highlights = [\<lparr> start = 4, end' = 5 \<rparr>, \<lparr> start = 30, end' = 31 \<rparr>] \<rparr>]}"
proof -
  let ?r = "Inr [\<lparr> filename = ''client.go'', line = 3,
               highlights = [\<lparr> start = 4, end' = 5 \<rparr>, \<lparr> start = 30, end' = 31 \<rparr>] \<rparr>]"
  have ties: "\<forall>q sent. parseTarget ''net/http.Client'' = Inr q \<and>
        snd (scanPackages q False [example_broken, example_pkg]) = Inr sent \<longrightarrow>
        (\<forall>a \<in> set sent. \<forall>b \<in> set sent.
           Filename (example_fset (Pos_n a)) = Filename (example_fset (Pos_n b)) \<and>
           Offset (example_fset (Pos_n a)) = Offset (example_fset (Pos_n b)) \<longrightarrow>
           Line (example_fset (Pos_n a)) = Line (example_fset (Pos_n b)) \<and>
           Column (example_fset (Pos_n a)) = Column (example_fset (Pos_n b)) \<and>
           End_n a - Pos_n a = End_n b - Pos_n b)"
  proof (intro allI impI)
    fix q sent
    assume "parseTarget ''net/http.Client'' = Inr q \<and>
        snd (scanPackages q False [example_broken, example_pkg]) = Inr sent"
    then have "sent = [Ident \<lparr> NamePos = 230, Name = ''c'' \<rparr>, Ident \<lparr> NamePos = 204, Name = ''c'' \<rparr>]"
      using example_query example_sent by auto
    then show "\<forall>a \<in> set sent. \<forall>b \<in> set sent.
           Filename (example_fset (Pos_n a)) = Filename (example_fset (Pos_n b)) \<and>
           Offset (example_fset (Pos_n a)) = Offset (example_fset (Pos_n b)) \<longrightarrow>
           Line (example_fset (Pos_n a)) = Line (example_fset (Pos_n b)) \<and>
           Column (example_fset (Pos_n a)) = Column (example_fset (Pos_n b)) \<and>
           End_n a - Pos_n a = End_n b - Pos_n b"
      by (simp add: example_fset_def)
  qed
  have "out = ?r" if "run ''net/http.Client'' example_fset False [example_broken, example_pkg] out" for out
    using run_deterministic [OF that example_run ties] .
  with example_run show ?thesis by blast
qed

text \<open>
  C5, as the specification has it, fails where two different tokens share file name
  and offset. \<open>Less\<close> does not order \<^verbatim>\<open>x\<close> and \<^verbatim>\<open>yy\<close> of \<open>tie_pkg\<close>, both
  arrangements are sorted, and the display records of line 7 and line 9 come out in
  the order in which the two nodes arrived: two runs on the same corpus differ.
\<close>

theorem two_runs_differ:
  "run ''p.T'' tie_fset False [tie_pkg]
     (Inr [\<lparr> filename = ''gen.y'', line = 7, highlights = [\<lparr> start = 9, end' = 10 \<rparr>] \<rparr>,
           \<lparr> filename = ''gen.y'', line = 9, highlights = [\<lparr> start = 9, end' = 11 \<rparr>] \<rparr>]) \<and>
   run ''p.T'' tie_fset False [tie_pkg]
     (Inr [\<lparr> filename = ''gen.y'', line = 9, highlights = [\<lparr> start = 9, end' = 11 \<rparr>] \<rparr>,
           \<lparr> filename = ''gen.y'', line = 7, highlights = [\<lparr> start = 9, end' = 10 \<rparr>] \<rparr>]) \<and>
   [\<lparr> filename = ''gen.y'', line = 7, highlights = [\<lparr> start = 9, end' = 10 \<rparr>] \<rparr>,
    \<lparr> filename = ''gen.y'', line = 9, highlights = [\<lparr> start = 9, end' = 11 \<rparr>] \<rparr>] \<noteq>
   [\<lparr> filename = ''gen.y'', line = 9, highlights = [\<lparr> start = 9, end' = 11 \<rparr>] \<rparr>,
    \<lparr> filename = ''gen.y'', line = 7, highlights = [\<lparr> start = 9, end' = 10 \<rparr>] \<rparr>]"
proof -
  let ?x = "Ident \<lparr> NamePos = 29, Name = ''x'' \<rparr>"
  let ?y = "Ident \<lparr> NamePos = 1029, Name = ''yy'' \<rparr>"
  have q: "parseTarget ''p.T'' = Inr \<lparr> pkgPath = ''p'', objName = ''T'', selName = [] \<rparr>"
    by (simp add: parseTarget_def)
  have "scanPackage \<lparr> pkgPath = ''p'', objName = ''T'', selName = [] \<rparr> tie_pkg = Inr [?x, ?y]"
    by (simp add: scanPackage_def tie_pkg_def both_def fieldMatches_def)
  moreover have "Errors tie_pkg = []" by (simp add: tie_pkg_def)
  ultimately have sent: "snd (scanPackages \<lparr> pkgPath = ''p'', objName = ''T'', selName = [] \<rparr> False
      [tie_pkg]) = Inr [?x, ?y]"
    by (simp add: both_def split_beta)
  have s1: "Sort_result tie_fset [?x, ?y] [?x, ?y]"
    by (simp add: Sort_result_def Less_def tie_fset_def)
  have s2: "Sort_result tie_fset [?y, ?x] [?y, ?x]"
    by (simp add: Sort_result_def Less_def tie_fset_def)
  have a2: "mset [?y, ?x] = mset [?x, ?y]" by simp
  have g1: "group tie_fset [?x, ?y] =
     [\<lparr> filename = ''gen.y'', line = 7, highlights = [\<lparr> start = 9, end' = 10 \<rparr>] \<rparr>,
      \<lparr> filename = ''gen.y'', line = 9, highlights = [\<lparr> start = 9, end' = 11 \<rparr>] \<rparr>]"
    by (simp add: group_def group_step_None group_step_Some results_of_def span_def tie_fset_def)
  have g2: "group tie_fset [?y, ?x] =
     [\<lparr> filename = ''gen.y'', line = 9, highlights = [\<lparr> start = 9, end' = 11 \<rparr>] \<rparr>,
      \<lparr> filename = ''gen.y'', line = 7, highlights = [\<lparr> start = 9, end' = 10 \<rparr>] \<rparr>]"
    by (simp add: group_def group_step_None group_step_Some results_of_def span_def tie_fset_def)
  have r1: "run ''p.T'' tie_fset False [tie_pkg] (Inr (group tie_fset [?x, ?y]))"
    using q sent refl s1 by (rule run.completes)
  have r2: "run ''p.T'' tie_fset False [tie_pkg] (Inr (group tie_fset [?y, ?x]))"
    using q sent a2 s2 by (rule run.completes)
  from r1 r2 show ?thesis unfolding g1 g2 by simp
qed

end
